theory Spec2Isabelle
  imports Main "HOL-Library.Word"
begin

unbundle bit_operations_syntax

section \<open>Bytes and buffers\<close>

text \<open>
  The library works on \<^verbatim>\<open>ArrayBuffer\<close>s through \<^verbatim>\<open>DataView\<close> and \<^verbatim>\<open>Uint8Array\<close>
  views. A buffer is its list of bytes; its \<^verbatim>\<open>byteLength\<close> is the length of the list.
\<close>

type_synonym byte = "8 word"

section \<open>PackBits (macpaint.js, class PackBits)\<close>

subsection \<open>decompressScanline\<close>

text \<open>
  The \<^verbatim>\<open>error\<close> strings of the result object, one constructor per message of the source:
  \<^item> \<open>UnexpectedEndOfInput\<close>: "Unexpected end of input during decompression."
  \<^item> \<open>LiteralExceedsScanline\<close>: "Literal run exceeds scanline boundary."
  \<^item> \<open>LiteralPastInput\<close>: "Literal run reads past input buffer."
  \<^item> \<open>RepeatExceedsScanline\<close>: "Repeat run exceeds scanline boundary."
  \<^item> \<open>RepeatPastInput\<close>: "Repeat run reads past input buffer for byte to repeat."
  \<^item> \<open>NotSeventyTwo n\<close>: "Scanline decompression did not yield 72 bytes, got n"
  \<^item> \<open>ExceptionDuringDecompression\<close>: the \<^verbatim>\<open>catch\<close> branch.
\<close>

datatype DecompressError =
    UnexpectedEndOfInput
  | LiteralExceedsScanline
  | LiteralPastInput
  | RepeatExceedsScanline
  | RepeatPastInput
  | NotSeventyTwo nat
  | ExceptionDuringDecompression

text \<open>
  The state of the \<^verbatim>\<open>while (outputIndex < 72)\<close> loop when it is left: the bytes written to
  \<^verbatim>\<open>output\<close> so far (\<^verbatim>\<open>outputIndex\<close> is their number), \<^verbatim>\<open>currentOffset\<close>, and the error of
  the \<^verbatim>\<open>return\<close> taken, if any.
\<close>

record DecompressState =
  produced :: "byte list"
  currentOffset :: nat
  failure :: "DecompressError option"

function decompressLoop :: "byte list \<Rightarrow> nat \<Rightarrow> byte list \<Rightarrow> DecompressState" where
  "decompressLoop inputView offs out =
     (if length out < 72 then
        if offs \<ge> length inputView then
          \<lparr>produced = out, currentOffset = offs, failure = Some UnexpectedEndOfInput\<rparr>
        else
          let headerByte = sint (inputView ! offs);
              offs1 = offs + 1
          in if headerByte \<ge> 0 then
               let count = nat (headerByte + 1)
               in if length out + count > 72 then
                    \<lparr>produced = out, currentOffset = offs1, failure = Some LiteralExceedsScanline\<rparr>
                  else if offs1 + count > length inputView then
                    \<lparr>produced = out, currentOffset = offs1, failure = Some LiteralPastInput\<rparr>
                  else decompressLoop inputView (offs1 + count)
                         (out @ take count (drop offs1 inputView))
             else if headerByte \<ge> -127 \<and> headerByte \<le> -1 then
               let count = nat (1 - headerByte)
               in if length out + count > 72 then
                    \<lparr>produced = out, currentOffset = offs1, failure = Some RepeatExceedsScanline\<rparr>
                  else if offs1 \<ge> length inputView then
                    \<lparr>produced = out, currentOffset = offs1, failure = Some RepeatPastInput\<rparr>
                  else decompressLoop inputView (offs1 + 1)
                         (out @ replicate count (inputView ! offs1))
             else decompressLoop inputView offs1 out
      else if length out \<noteq> 72 then
        \<lparr>produced = out, currentOffset = offs, failure = Some (NotSeventyTwo (length out))\<rparr>
      else \<lparr>produced = out, currentOffset = offs, failure = None\<rparr>)"
  by pat_completeness auto
termination
  by (relation "measure (\<lambda>(inputView, offs, out). length inputView - offs)") auto

declare decompressLoop.simps [simp del]

text \<open>
  The result object \<^verbatim>\<open>{data, bytesRead, error}\<close>. \<^verbatim>\<open>data\<close> is the 72-byte \<^verbatim>\<open>Uint8Array\<close>,
  zero beyond the bytes produced.
\<close>

record DecompressResult =
  data :: "byte list"
  bytesRead :: int
  error :: "DecompressError option"

text \<open>
  \<^verbatim>\<open>decompressScanline(inputView, initialOffset)\<close>. With a negative \<^verbatim>\<open>initialOffset\<close> the
  end-of-input test is false, \<^verbatim>\<open>getInt8(currentOffset++)\<close> increments and then throws a
  RangeError, and the \<^verbatim>\<open>catch\<close> returns the error object.
\<close>

definition decompressScanline :: "byte list \<Rightarrow> int \<Rightarrow> DecompressResult" where
  "decompressScanline inputView initialOffset =
     (if initialOffset < 0 then
        \<lparr>data = replicate 72 0, bytesRead = (initialOffset + 1) - initialOffset,
         error = Some ExceptionDuringDecompression\<rparr>
      else
        let st = decompressLoop inputView (nat initialOffset) []
        in \<lparr>data = produced st @ replicate (72 - length (produced st)) 0,
            bytesRead = int (currentOffset st) - initialOffset,
            error = failure st\<rparr>)"

subsection \<open>compressScanline\<close>

text \<open>The inner \<^verbatim>\<open>while\<close> that finds a repeat run; returns \<^verbatim>\<open>runLength\<close>.\<close>

function findRepeatRun :: "byte list \<Rightarrow> nat \<Rightarrow> nat \<Rightarrow> nat" where
  "findRepeatRun scanlineData i runLength =
     (if i + runLength < length scanlineData
         \<and> scanlineData ! i = scanlineData ! (i + runLength) \<and> runLength < 128
      then findRepeatRun scanlineData i (runLength + 1)
      else runLength)"
  by pat_completeness auto
termination
  by (relation "measure (\<lambda>(s, i, r). length s - (i + r))") auto

declare findRepeatRun.simps [simp del]

text \<open>The inner \<^verbatim>\<open>while (i < n)\<close> that extends a literal run; returns the final \<^verbatim>\<open>i\<close>.\<close>

function findLiteralEnd :: "byte list \<Rightarrow> nat \<Rightarrow> nat \<Rightarrow> nat" where
  "findLiteralEnd scanlineData literalStart i =
     (if i < length scanlineData then
        if i + 1 < length scanlineData \<and> scanlineData ! i = scanlineData ! (i + 1) then i
        else if i - literalStart \<ge> 127 then i
        else findLiteralEnd scanlineData literalStart (i + 1)
      else i)"
  by pat_completeness auto
termination
  by (relation "measure (\<lambda>(s, l, i). length s - i)") auto

declare findLiteralEnd.simps [simp del]

lemma findRepeatRun_ge: "runLength \<le> findRepeatRun s i runLength"
proof (induction s i runLength rule: findRepeatRun.induct)
  case (1 s i r)
  show ?case
  proof (cases "i + r < length s \<and> s ! i = s ! (i + r) \<and> r < 128")
    case True
    then have "r + 1 \<le> findRepeatRun s i (r + 1)" using 1 by simp
    then show ?thesis using True by (subst findRepeatRun.simps) simp
  next
    case False
    then show ?thesis by (subst findRepeatRun.simps) auto
  qed
qed

lemma findLiteralEnd_ge: "i \<le> findLiteralEnd s l i"
proof (induction s l i rule: findLiteralEnd.induct)
  case (1 s l i)
  show ?case
  proof (cases "i < length s \<and> \<not> (i + 1 < length s \<and> s ! i = s ! (i + 1)) \<and> \<not> i - l \<ge> 127")
    case True
    then have "i + 1 \<le> findLiteralEnd s l (i + 1)" using 1 by simp
    then show ?thesis using True by (subst findLiteralEnd.simps) simp
  next
    case False
    then show ?thesis by (subst findLiteralEnd.simps) auto
  qed
qed

text \<open>
  The outer \<^verbatim>\<open>while (i < n)\<close>. \<^verbatim>\<open>compressed\<close> is a JavaScript array of numbers; the control
  byte of a repeat run is pushed as the negative number \<^verbatim>\<open>-(runLength - 1)\<close>.
\<close>

function compressLoop :: "byte list \<Rightarrow> nat \<Rightarrow> int list \<Rightarrow> int list" where
  "compressLoop scanlineData i compressed =
     (if i < length scanlineData then
        let runLength = findRepeatRun scanlineData i 1
        in if runLength > 1 then
             compressLoop scanlineData (i + runLength)
               (compressed @ [- (int runLength - 1), uint (scanlineData ! i)])
           else
             let literalStart = i;
                 i1 = findLiteralEnd scanlineData literalStart (i + 1);
                 literalLength = i1 - literalStart
             in compressLoop scanlineData i1
                  (compressed @ [int literalLength - 1]
                     @ map uint (take literalLength (drop literalStart scanlineData)))
      else compressed)"
  by pat_completeness auto
termination
proof (relation "measure (\<lambda>(s, i, c). length s - i)", goal_cases)
  case 1
  then show ?case by simp
next
  case (2 s i c r)
  then show ?case by simp
next
  case (3 s i c r ls i1 ll)
  have "i + 1 \<le> findLiteralEnd s i (i + 1)" by (rule findLiteralEnd_ge)
  with 3 show ?case by simp
qed

declare compressLoop.simps [simp del]

datatype CompressError = ScanlineNot72

text \<open>
  \<^verbatim>\<open>compressScanline(scanlineData)\<close>: throws unless the input has 72 bytes; the result
  \<^verbatim>\<open>new Uint8Array(compressed)\<close> stores every number modulo 256.
\<close>

definition compressScanline :: "byte list \<Rightarrow> CompressError + byte list" where
  "compressScanline scanlineData =
     (if length scanlineData \<noteq> 72 then Inl ScanlineNot72
      else Inr (map word_of_int (compressLoop scanlineData 0 [])))"

subsection \<open>Properties of the run finders\<close>

lemma findRepeatRun_le: "findRepeatRun s i r \<le> max r 128"
proof (induction s i r rule: findRepeatRun.induct)
  case (1 s i r)
  show ?case using 1 by (subst findRepeatRun.simps) (auto simp: max_def split: if_splits)
qed

lemma findRepeatRun_bound: "i + findRepeatRun s i r \<le> max (i + r) (length s)"
proof (induction s i r rule: findRepeatRun.induct)
  case (1 s i r)
  show ?case using 1 by (subst findRepeatRun.simps) (auto simp: max_def split: if_splits)
qed

lemma findRepeatRun_same:
  "(\<forall>k<r. s ! (i + k) = s ! i) \<Longrightarrow> k < findRepeatRun s i r \<Longrightarrow> s ! (i + k) = s ! i"
proof (induction s i r rule: findRepeatRun.induct)
  case (1 s i r)
  show ?case
  proof (cases "i + r < length s \<and> s ! i = s ! (i + r) \<and> r < 128")
    case True
    have a: "\<forall>k<r + 1. s ! (i + k) = s ! i"
      using True "1.prems"(1) by (auto simp: less_Suc_eq)
    have "k < findRepeatRun s i (r + 1)" using "1.prems"(2) True by (subst (asm) findRepeatRun.simps) simp
    then show ?thesis using "1.IH"[OF True a] by simp
  next
    case False
    then have "findRepeatRun s i r = r" by (subst findRepeatRun.simps) auto
    then show ?thesis using "1.prems" by simp
  qed
qed

lemma findRepeatRun_gt1: "(1 < findRepeatRun s i 1) = (i + 1 < length s \<and> s ! i = s ! (i + 1))"
proof (cases "i + 1 < length s \<and> s ! i = s ! (i + 1)")
  case True
  have "1 + 1 \<le> findRepeatRun s i (1 + 1)" by (rule findRepeatRun_ge)
  then show ?thesis using True by (subst findRepeatRun.simps) simp
next
  case False
  then show ?thesis by (subst findRepeatRun.simps) auto
qed

lemma findLiteralEnd_le: "findLiteralEnd s l i \<le> max i (length s)"
proof (induction s l i rule: findLiteralEnd.induct)
  case (1 s l i)
  show ?case using 1 by (subst findLiteralEnd.simps) (auto simp: max_def split: if_splits)
qed

lemma findLiteralEnd_len: "findLiteralEnd s l i - l \<le> max (i - l) 127"
proof (induction s l i rule: findLiteralEnd.induct)
  case (1 s l i)
  show ?case using 1 by (subst findLiteralEnd.simps) (auto simp: max_def split: if_splits)
qed

lemma findLiteralEnd_stop:
  "findLiteralEnd s l i = j \<Longrightarrow>
     j \<ge> length s \<or> (j + 1 < length s \<and> s ! j = s ! (j + 1)) \<or> j - l \<ge> 127"
proof (induction s l i rule: findLiteralEnd.induct)
  case (1 s l i)
  show ?case using 1 by (subst (asm) (2) findLiteralEnd.simps) (auto split: if_splits)
qed


lemma compressLoop_done: "\<not> i < length s \<Longrightarrow> compressLoop s i acc = acc"
  by (subst compressLoop.simps) simp

lemma compressLoop_repeat:
  "i < length s \<Longrightarrow> 1 < findRepeatRun s i 1 \<Longrightarrow>
   compressLoop s i acc =
     compressLoop s (i + findRepeatRun s i 1) (acc @ [- (int (findRepeatRun s i 1) - 1), uint (s ! i)])"
  by (subst compressLoop.simps) (simp add: Let_def)

lemma compressLoop_literal:
  "i < length s \<Longrightarrow> \<not> 1 < findRepeatRun s i 1 \<Longrightarrow>
   compressLoop s i acc =
     compressLoop s (findLiteralEnd s i (i + 1))
       (acc @ [int (findLiteralEnd s i (i + 1) - i) - 1]
          @ map uint (take (findLiteralEnd s i (i + 1) - i) (drop i s)))"
  by (subst compressLoop.simps) (simp add: Let_def)

lemma compressLoop_acc: "compressLoop s i acc = acc @ compressLoop s i []"
proof (induction "length s - i" arbitrary: i acc rule: less_induct)
  case less
  show ?case
  proof (cases "i < length s")
    case False
    then show ?thesis by (simp add: compressLoop_done)
  next
    case True
    note lt = this
    show ?thesis
    proof (cases "1 < findRepeatRun s i 1")
      case True
      let ?j = "i + findRepeatRun s i 1"
      have d: "length s - ?j < length s - i" using lt True by simp
      show ?thesis
        using less[OF d, of "acc @ [- (int (findRepeatRun s i 1) - 1), uint (s ! i)]"]
              less[OF d, of "[] @ [- (int (findRepeatRun s i 1) - 1), uint (s ! i)]"]
        by (simp add: compressLoop_repeat[OF lt True])
    next
      case False
      let ?j = "findLiteralEnd s i (i + 1)"
      have "i + 1 \<le> ?j" by (rule findLiteralEnd_ge)
      then have d: "length s - ?j < length s - i" using lt by simp
      show ?thesis
        using less[OF d, of "acc @ [int (?j - i) - 1] @ map uint (take (?j - i) (drop i s))"]
              less[OF d, of "[] @ [int (?j - i) - 1] @ map uint (take (?j - i) (drop i s))"]
        by (simp add: compressLoop_literal[OF lt False])
    qed
  qed
qed

subsection \<open>Length of the compressed scanline\<close>

lemma bound_repeat_arith:
  "3 * (f::nat) \<le> 4 * (n - (i + r)) + 2 \<Longrightarrow> i + r \<le> n \<Longrightarrow> 1 < r
   \<Longrightarrow> 3 * (2 + f) + 2 \<le> 4 * (n - i) + 2"
  by arith

lemma bound_literal_arith:
  assumes "3 * (f::nat) + c \<le> 4 * (n - j) + 2" "i + 1 \<le> j" "j \<le> n"
    and "n \<le> j \<or> c = 2 \<or> 127 \<le> j - i"
  shows "3 * (1 + (j - i) + f) \<le> 4 * (n - i) + 2"
proof -
  define L where "L = j - i"
  define m where "m = n - j"
  have L: "j = i + L" "1 \<le> L" using assms(2) by (simp_all add: L_def)
  have m: "n = j + m" using assms(3) by (simp add: m_def)
  have 1: "3 * f + c \<le> 4 * m + 2" using assms(1) m by simp
  have 2: "m = 0 \<or> c = 2 \<or> 127 \<le> L" using assms(4) L m by auto
  have "3 * (1 + L + f) \<le> 4 * (L + m) + 2" using 1 2 L(2) by arith
  then show ?thesis using L m by simp
qed

lemma compressLoop_bound:
  "3 * length (compressLoop s i []) + (if i + 1 < length s \<and> s ! i = s ! (i + 1) then 2 else 0)
     \<le> 4 * (length s - i) + 2"
proof (induction "length s - i" arbitrary: i rule: less_induct)
  case less
  show ?case
  proof (cases "i < length s")
    case False
    then show ?thesis by (simp add: compressLoop_done)
  next
    case True
    note lt = this
    show ?thesis
    proof (cases "1 < findRepeatRun s i 1")
      case True
      let ?r = "findRepeatRun s i 1"
      have b: "i + ?r \<le> length s" using findRepeatRun_bound[of i s 1] lt by simp
      have d: "length s - (i + ?r) < length s - i" using lt True by simp
      have e: "compressLoop s i [] = [- (int ?r - 1), uint (s ! i)] @ compressLoop s (i + ?r) []"
        using compressLoop_repeat[OF lt True, of "[]"] compressLoop_acc[of s "i + ?r" "[- (int ?r - 1), uint (s ! i)]"]
        by simp
      have ih: "3 * length (compressLoop s (i + ?r) []) \<le> 4 * (length s - (i + ?r)) + 2"
        using less[OF d] by (simp split: if_splits)
      have "3 * (2 + length (compressLoop s (i + ?r) [])) + 2 \<le> 4 * (length s - i) + 2"
        using ih b True by (rule bound_repeat_arith)
      then show ?thesis unfolding e by simp
    next
      case False
      let ?j = "findLiteralEnd s i (i + 1)"
      have ge: "i + 1 \<le> ?j" by (rule findLiteralEnd_ge)
      have le: "?j \<le> length s" using findLiteralEnd_le[of s i "i + 1"] lt by simp
      have d: "length s - ?j < length s - i" using lt ge by simp
      have e: "compressLoop s i [] =
                 [int (?j - i) - 1] @ map uint (take (?j - i) (drop i s)) @ compressLoop s ?j []"
        using compressLoop_literal[OF lt False, of "[]"]
              compressLoop_acc[of s ?j "[int (?j - i) - 1] @ map uint (take (?j - i) (drop i s))"]
        by simp
      have n: "\<not> (i + 1 < length s \<and> s ! i = s ! (i + 1))"
        using False findRepeatRun_gt1[of s i] by simp
      have len: "length (take (?j - i) (drop i s)) = ?j - i" using le by simp
      have stop: "?j \<ge> length s \<or> (?j + 1 < length s \<and> s ! ?j = s ! (?j + 1)) \<or> ?j - i \<ge> 127"
        by (rule findLiteralEnd_stop[OF refl])
      have ih: "3 * length (compressLoop s ?j []) +
                  (if ?j + 1 < length s \<and> s ! ?j = s ! (?j + 1) then 2 else 0)
                  \<le> 4 * (length s - ?j) + 2"
        by (rule less[OF d])
      have "3 * (1 + (?j - i) + length (compressLoop s ?j [])) \<le> 4 * (length s - i) + 2"
      proof (rule bound_literal_arith[OF ih ge le])
        show "length s \<le> ?j \<or> (if ?j + 1 < length s \<and> s ! ?j = s ! (?j + 1) then 2 else 0) = (2::nat)
                \<or> 127 \<le> ?j - i"
          using stop by auto
      qed
      moreover have "min (length s - i) (?j - i) = ?j - i" using le by simp
      ultimately show ?thesis using n unfolding e by auto
    qed
  qed
qed

lemma compressScanline_le_96:
  "length s = 72 \<Longrightarrow> length (compressLoop s 0 []) \<le> 96"
  using compressLoop_bound[of s 0] by (simp split: if_splits)

subsection \<open>Decompressing what was compressed\<close>

lemma sint_repeat_header:
  "2 \<le> r \<Longrightarrow> r \<le> 128 \<Longrightarrow> sint (word_of_int (- (int r - 1)) :: byte) = - (int r - 1)"
  by (subst sint_sbintrunc') (simp add: signed_take_bit_int_eq_self)

lemma sint_literal_header:
  "1 \<le> L \<Longrightarrow> L \<le> 128 \<Longrightarrow> sint (word_of_int (int L - 1) :: byte) = int L - 1"
  by (subst sint_sbintrunc') (simp add: signed_take_bit_int_eq_self)

lemma decompressLoop_done:
  "length out = 72 \<Longrightarrow>
   decompressLoop inputView offs out = \<lparr>produced = out, currentOffset = offs, failure = None\<rparr>"
  by (subst decompressLoop.simps) simp

lemma decompressLoop_repeat:
  assumes "inputView = pre @ [h, b] @ rest" "sint h = - (int r - 1)" "2 \<le> r" "r \<le> 128"
    "length out + r \<le> 72"
  shows "decompressLoop inputView (length pre) out =
         decompressLoop inputView (length pre + 2) (out @ replicate r b)"
proof -
  have 1: "inputView ! length pre = h" "inputView ! (length pre + 1) = b"
    using assms(1) by (simp_all add: nth_append)
  have 2: "nat (1 - sint h) = r" using assms(2,3) by simp
  show ?thesis
    using assms 1 2
    by (subst decompressLoop.simps) (simp add: Let_def)
qed

lemma decompressLoop_literal:
  assumes "inputView = pre @ [h] @ lit @ rest" "sint h = int (length lit) - 1" "1 \<le> length lit"
    "length out + length lit \<le> 72"
  shows "decompressLoop inputView (length pre) out =
         decompressLoop inputView (length pre + 1 + length lit) (out @ lit)"
proof -
  have 0: "length out < 72" "\<not> length pre \<ge> length inputView"
    using assms by simp_all
  have 1: "sint (inputView ! length pre) = int (length lit) - 1"
    using assms(1,2) by (simp add: nth_append)
  have 2: "nat (int (length lit) - 1 + 1) = length lit" by simp
  have 3: "take (length lit) (drop (length pre + 1) inputView) = lit"
    using assms(1) by simp
  have 4: "\<not> length out + length lit > 72" "\<not> length pre + 1 + length lit > length inputView"
    "int (length lit) - 1 \<ge> 0"
    using assms by auto
  show ?thesis
    by (subst decompressLoop.simps) (simp only: 0 1 2 3 4 Let_def if_True if_False)
qed

lemma take_run:
  assumes "i + r \<le> length s" and same: "\<And>k. k < r \<Longrightarrow> s ! (i + k) = s ! i"
  shows "take i s @ replicate r (s ! i) = take (i + r) s"
proof (rule nth_equalityI)
  show "length (take i s @ replicate r (s ! i)) = length (take (i + r) s)"
    using assms(1) by simp
next
  fix n assume n: "n < length (take i s @ replicate r (s ! i))"
  then have nr: "n < i + r" using assms(1) by simp
  show "(take i s @ replicate r (s ! i)) ! n = take (i + r) s ! n"
  proof (cases "n < i")
    case True
    then show ?thesis using assms(1) by (simp add: nth_append)
  next
    case False
    then have "s ! (i + (n - i)) = s ! i" using nr by (intro same) simp
    then show ?thesis using False nr assms(1) by (simp add: nth_append)
  qed
qed

lemma roundtrip_loop:
  "length s = 72 \<Longrightarrow> i \<le> 72 \<Longrightarrow>
   decompressLoop (pre @ map word_of_int (compressLoop s i [])) (length pre) (take i s) =
     \<lparr>produced = s, currentOffset = length pre + length (compressLoop s i []), failure = None\<rparr>"
proof (induction "length s - i" arbitrary: i pre rule: less_induct)
  case less
  note len = \<open>length s = 72\<close>
  show ?case
  proof (cases "i < length s")
    case False
    then have "i = 72" using less.prems by simp
    then show ?thesis using len by (simp add: compressLoop_done decompressLoop_done)
  next
    case True
    note lt = this
    show ?thesis
    proof (cases "1 < findRepeatRun s i 1")
      case True
      let ?r = "findRepeatRun s i 1"
      let ?h = "word_of_int (- (int ?r - 1)) :: byte"
      let ?rest = "map word_of_int (compressLoop s (i + ?r) []) :: byte list"
      have b: "i + ?r \<le> length s" using findRepeatRun_bound[of i s 1] lt by simp
      have r128: "?r \<le> 128" using findRepeatRun_le[of s i 1] by simp
      have d: "length s - (i + ?r) < length s - i" using lt True by simp
      have e: "compressLoop s i [] = [- (int ?r - 1), uint (s ! i)] @ compressLoop s (i + ?r) []"
        using compressLoop_repeat[OF lt True, of "[]"]
              compressLoop_acc[of s "i + ?r" "[- (int ?r - 1), uint (s ! i)]"]
        by simp
      have inp: "pre @ map word_of_int (compressLoop s i []) = pre @ [?h, s ! i] @ ?rest"
        unfolding e by simp
      have inp2: "pre @ map word_of_int (compressLoop s i []) = (pre @ [?h, s ! i]) @ ?rest"
        unfolding e by simp
      have step: "decompressLoop (pre @ map word_of_int (compressLoop s i [])) (length pre) (take i s)
            = decompressLoop (pre @ map word_of_int (compressLoop s i [])) (length pre + 2)
                (take i s @ replicate ?r (s ! i))"
      proof (rule decompressLoop_repeat[OF inp])
        show "sint ?h = - (int ?r - 1)" using True r128 by (intro sint_repeat_header) simp_all
        show "2 \<le> ?r" using True by simp
        show "?r \<le> 128" by (rule r128)
        show "length (take i s) + ?r \<le> 72" using b len lt by simp
      qed
      have tk: "take i s @ replicate ?r (s ! i) = take (i + ?r) s"
        by (rule take_run[OF b]) (rule findRepeatRun_same, simp_all)
      have ih: "decompressLoop ((pre @ [?h, s ! i]) @ ?rest) (length (pre @ [?h, s ! i])) (take (i + ?r) s)
            = \<lparr>produced = s, currentOffset = length (pre @ [?h, s ! i]) + length (compressLoop s (i + ?r) []),
               failure = None\<rparr>"
        using less.hyps[OF d len, of "pre @ [?h, s ! i]"] b len by simp
      show ?thesis
        unfolding step tk using ih unfolding inp2[symmetric] by (simp add: e)
    next
      case False
      let ?j = "findLiteralEnd s i (i + 1)"
      let ?L = "?j - i"
      let ?h = "word_of_int (int ?L - 1) :: byte"
      let ?lit = "take ?L (drop i s)"
      let ?rest = "map word_of_int (compressLoop s ?j []) :: byte list"
      have ge: "i + 1 \<le> ?j" by (rule findLiteralEnd_ge)
      have le: "?j \<le> length s" using findLiteralEnd_le[of s i "i + 1"] lt by simp
      have d: "length s - ?j < length s - i" using lt ge by simp
      have L: "length ?lit = ?L" using le by simp
      have e: "compressLoop s i [] = [int ?L - 1] @ map uint ?lit @ compressLoop s ?j []"
        using compressLoop_literal[OF lt False, of "[]"]
              compressLoop_acc[of s ?j "[int ?L - 1] @ map uint ?lit"]
        by simp
      have m: "map word_of_int (map uint ?lit) = ?lit"
        by (simp add: comp_def)
      have inp: "pre @ map word_of_int (compressLoop s i []) = pre @ [?h] @ ?lit @ ?rest"
        unfolding e using m by simp
      have inp2: "pre @ map word_of_int (compressLoop s i []) = (pre @ [?h] @ ?lit) @ ?rest"
        unfolding e using m by simp
      have step: "decompressLoop (pre @ map word_of_int (compressLoop s i [])) (length pre) (take i s)
            = decompressLoop (pre @ map word_of_int (compressLoop s i [])) (length pre + 1 + length ?lit)
                (take i s @ ?lit)"
      proof (rule decompressLoop_literal[OF inp])
        have "?L \<le> 128" using le len by simp
        then show "sint ?h = int (length ?lit) - 1" unfolding L using ge by (intro sint_literal_header) simp_all
        show "1 \<le> length ?lit" unfolding L using ge by simp
        show "length (take i s) + length ?lit \<le> 72" unfolding L using le len ge by simp
      qed
      have tk: "take i s @ ?lit = take ?j s"
        using ge by (simp add: take_add[symmetric])
      have ih: "decompressLoop ((pre @ [?h] @ ?lit) @ ?rest) (length (pre @ [?h] @ ?lit)) (take ?j s)
            = \<lparr>produced = s, currentOffset = length (pre @ [?h] @ ?lit) + length (compressLoop s ?j []),
               failure = None\<rparr>"
        using less.hyps[OF d len, of "pre @ [?h] @ ?lit"] le len by simp
      have lp: "length (pre @ [?h] @ ?lit) = length pre + 1 + length ?lit" by simp
      show ?thesis
        unfolding step tk using ih unfolding inp2[symmetric] lp by (simp add: e L)
    qed
  qed
qed

lemma compressLoop_roundtrip:
  assumes "length s = 72"
  shows "decompressLoop (map word_of_int (compressLoop s 0 [])) 0 [] =
     \<lparr>produced = s, currentOffset = length (compressLoop s 0 []), failure = None\<rparr>"
  using roundtrip_loop[OF assms, of 0 "[]"] by simp

subsection \<open>What a successful decompression guarantees\<close>

lemma decompressLoop_success:
  "failure (decompressLoop inputView offs out) = None \<Longrightarrow> offs \<le> length inputView \<Longrightarrow>
   length (produced (decompressLoop inputView offs out)) = 72
   \<and> offs \<le> currentOffset (decompressLoop inputView offs out)
   \<and> currentOffset (decompressLoop inputView offs out) \<le> length inputView"
proof (induction inputView offs out rule: decompressLoop.induct)
  case (1 inputView offs out)
  let ?h = "sint (inputView ! offs)"
  let ?D = "decompressLoop inputView offs out"
  show ?case
  proof (cases "length out < 72")
    case False
    then show ?thesis using "1.prems" by (subst (asm) decompressLoop.simps, subst (1 2 3) decompressLoop.simps) (simp split: if_splits)
  next
    case True
    note lt = this
    have inb: "\<not> length inputView \<le> offs"
      using "1.prems"(1) lt by (subst (asm) decompressLoop.simps) (auto split: if_splits)
    consider (lit) "0 \<le> ?h" | (rep) "\<not> 0 \<le> ?h" "- 127 \<le> ?h \<and> ?h \<le> - 1"
      | (nop) "\<not> 0 \<le> ?h" "\<not> (- 127 \<le> ?h \<and> ?h \<le> - 1)" by blast
    then show ?thesis
    proof cases
      case lit
      let ?c = "nat (?h + 1)"
      have c1: "\<not> 72 < length out + ?c" and c2: "\<not> length inputView < offs + 1 + ?c"
        using "1.prems"(1) lt inb lit by (subst (asm) decompressLoop.simps, simp add: Let_def split: if_splits)+
      have eq: "?D = decompressLoop inputView (offs + 1 + ?c) (out @ take ?c (drop (offs + 1) inputView))"
        using lt inb lit c1 c2 by (subst decompressLoop.simps) (simp add: Let_def)
      have "length (produced ?D) = 72 \<and> offs + 1 + ?c \<le> currentOffset ?D \<and> currentOffset ?D \<le> length inputView"
        unfolding eq
        using "1.IH"(1)[OF lt inb refl refl lit refl] c1 c2 "1.prems"(1)[unfolded eq] by simp
      then show ?thesis by simp
    next
      case rep
      let ?c = "nat (1 - ?h)"
      have c1: "\<not> 72 < length out + ?c" and c2: "\<not> length inputView \<le> offs + 1"
        using "1.prems"(1) lt inb rep by (subst (asm) decompressLoop.simps, simp add: Let_def split: if_splits)+
      have eq: "?D = decompressLoop inputView (offs + 1 + 1) (out @ replicate ?c (inputView ! (offs + 1)))"
        using lt inb rep c1 c2 by (subst decompressLoop.simps) (simp add: Let_def)
      have "length (produced ?D) = 72 \<and> offs + 1 + 1 \<le> currentOffset ?D \<and> currentOffset ?D \<le> length inputView"
        unfolding eq
        using "1.IH"(2)[OF lt inb refl refl rep refl] c1 c2 "1.prems"(1)[unfolded eq] by simp
      then show ?thesis by simp
    next
      case nop
      have eq: "?D = decompressLoop inputView (offs + 1) out"
        using lt inb nop by (subst decompressLoop.simps) (simp add: Let_def)
      have "length (produced ?D) = 72 \<and> offs + 1 \<le> currentOffset ?D \<and> currentOffset ?D \<le> length inputView"
        unfolding eq
        using "1.IH"(3)[OF lt inb refl refl nop] inb "1.prems"(1)[unfolded eq] by simp
      then show ?thesis by simp
    qed
  qed
qed

lemma decompressLoop_past_end:
  "length inputView \<le> offs \<Longrightarrow> failure (decompressLoop inputView offs []) \<noteq> None"
  by (subst decompressLoop.simps) simp

subsection \<open>The claims about PackBits\<close>

text \<open>
  A scanline of 24 groups \<open>0, 1, 1\<close>: every group is a one-byte literal followed by a
  two-byte repeat, so every three input bytes cost four output bytes.
\<close>

definition worstScanline :: "byte list" where
  "worstScanline =
     [0, 1, 1, 0, 1, 1, 0, 1, 1, 0, 1, 1, 0, 1, 1, 0, 1, 1, 0, 1, 1, 0, 1, 1,
      0, 1, 1, 0, 1, 1, 0, 1, 1, 0, 1, 1, 0, 1, 1, 0, 1, 1, 0, 1, 1, 0, 1, 1,
      0, 1, 1, 0, 1, 1, 0, 1, 1, 0, 1, 1, 0, 1, 1, 0, 1, 1, 0, 1, 1, 0, 1, 1]"

definition worstCompressed :: "byte list" where
  "worstCompressed =
     [0, 0, 255, 1, 0, 0, 255, 1, 0, 0, 255, 1, 0, 0, 255, 1, 0, 0, 255, 1, 0, 0, 255, 1,
      0, 0, 255, 1, 0, 0, 255, 1, 0, 0, 255, 1, 0, 0, 255, 1, 0, 0, 255, 1, 0, 0, 255, 1,
      0, 0, 255, 1, 0, 0, 255, 1, 0, 0, 255, 1, 0, 0, 255, 1, 0, 0, 255, 1, 0, 0, 255, 1,
      0, 0, 255, 1, 0, 0, 255, 1, 0, 0, 255, 1, 0, 0, 255, 1, 0, 0, 255, 1, 0, 0, 255, 1]"

lemma length_worstScanline: "length worstScanline = 72"
  by (simp add: worstScanline_def)

lemma compress_worstScanline: "compressScanline worstScanline = Inr worstCompressed"
  by code_simp

text \<open>
  Claim C5 as stated (the compressed scanline has at most 73 bytes) fails: the 72-byte
  scanline \<open>worstScanline\<close> is compressed to the 96 bytes of \<open>worstCompressed\<close>.
\<close>

theorem compressScanline_73_counterexample:
  "length worstScanline = 72 \<and> compressScanline worstScanline = Inr worstCompressed
   \<and> \<not> length worstCompressed \<le> 73"
  using length_worstScanline compress_worstScanline by (simp add: worstCompressed_def)

text \<open>
  Claim C5, amended: for every 72-byte scanline the compressor returns (it does not throw)
  an output of at most 96 bytes.
\<close>

theorem compressScanline_length_le_96:
  "length s = 72 \<Longrightarrow> \<exists>out. compressScanline s = Inr out \<and> length out \<le> 96"
  using compressScanline_le_96[of s] by (simp add: compressScanline_def)

theorem compressScanline_length_le_96_witness:
  "length worstScanline = 72
   \<and> (\<exists>out. compressScanline worstScanline = Inr out \<and> length out \<le> 96)"
  using compressScanline_length_le_96[of worstScanline] length_worstScanline by simp

text \<open>
  Claim C6: for every 72-byte input \<open>s\<close> the compressor returns a buffer, and
  decompressing that buffer from offset 0 gives back \<open>s\<close> with no error, having read the
  whole buffer.
\<close>

theorem decompress_compress_roundtrip:
  "length s = 72 \<Longrightarrow>
   \<exists>c. compressScanline s = Inr c
     \<and> decompressScanline c 0 = \<lparr>data = s, bytesRead = int (length c), error = None\<rparr>"
  using compressLoop_roundtrip[of s]
  by (simp add: compressScanline_def decompressScanline_def)

theorem decompress_compress_roundtrip_witness:
  "length worstScanline = 72
   \<and> (\<exists>c. compressScanline worstScanline = Inr c
     \<and> decompressScanline c 0 = \<lparr>data = worstScanline, bytesRead = int (length c), error = None\<rparr>)"
  using decompress_compress_roundtrip[of worstScanline] length_worstScanline by simp

text \<open>
  Claim C10: \<open>decompressScanline\<close> is a total function of the input buffer and the starting
  offset (the loop is defined by recursion on the number of input bytes left, every
  iteration reading at least one), it always returns a result object with a 72-byte
  \<open>data\<close>, and when the result carries no error the call started inside the buffer, the
  loop produced exactly 72 bytes, which are \<open>data\<close>, and \<open>bytesRead\<close> is at least one and
  at most the number of input bytes from the starting offset on.
\<close>

theorem decompressScanline_total_and_bounded:
  "error (decompressScanline inputView initialOffset) = None \<longrightarrow>
     0 \<le> initialOffset
     \<and> length (produced (decompressLoop inputView (nat initialOffset) [])) = 72
     \<and> data (decompressScanline inputView initialOffset)
         = produced (decompressLoop inputView (nat initialOffset) [])
     \<and> 0 \<le> bytesRead (decompressScanline inputView initialOffset)
     \<and> bytesRead (decompressScanline inputView initialOffset)
         \<le> int (length inputView) - initialOffset"
proof (cases "initialOffset < 0")
  case True
  then show ?thesis by (simp add: decompressScanline_def)
next
  case False
  let ?st = "decompressLoop inputView (nat initialOffset) []"
  show ?thesis
  proof
    assume "error (decompressScanline inputView initialOffset) = None"
    then have none: "failure ?st = None"
      using False by (simp add: decompressScanline_def Let_def)
    have "\<not> length inputView \<le> nat initialOffset"
      using decompressLoop_past_end[of inputView "nat initialOffset"] none by blast
    then have "nat initialOffset \<le> length inputView" by simp
    from decompressLoop_success[OF none this]
    show "0 \<le> initialOffset
     \<and> length (produced ?st) = 72
     \<and> data (decompressScanline inputView initialOffset) = produced ?st
     \<and> 0 \<le> bytesRead (decompressScanline inputView initialOffset)
     \<and> bytesRead (decompressScanline inputView initialOffset)
         \<le> int (length inputView) - initialOffset"
      using False by (auto simp: decompressScanline_def Let_def)
  qed
qed

theorem decompressScanline_total_and_bounded_witness:
  "error (decompressScanline [0xB9, 0] 0) = None
   \<and> 0 \<le> (0::int)
   \<and> length (produced (decompressLoop [0xB9, 0] (nat 0) [])) = 72
   \<and> data (decompressScanline [0xB9, 0] 0) = produced (decompressLoop [0xB9, 0] (nat 0) [])
   \<and> 0 \<le> bytesRead (decompressScanline [0xB9, 0] 0)
   \<and> bytesRead (decompressScanline [0xB9, 0] 0) \<le> int (length [0xB9, 0 :: byte]) - 0"
proof -
  have "error (decompressScanline [0xB9, 0] 0) = None" by code_simp
  then show ?thesis
    using decompressScanline_total_and_bounded[of "[0xB9, 0]" 0] by blast
qed

section \<open>The MFS volume library (mfs.js)\<close>

subsection \<open>Constants and errors\<close>

definition MFS_SIGNATURE :: nat where
  "MFS_SIGNATURE = 0xD2D7"

definition SECTOR_SIZE :: nat where
  "SECTOR_SIZE = 512"

definition DEFAULT_ALLOC_BLOCK_SIZE_400K :: nat where
  "DEFAULT_ALLOC_BLOCK_SIZE_400K = 1024"

definition MDB_START_SECTOR :: nat where
  "MDB_START_SECTOR = 2"

definition BOOT_BLOCK_SECTORS :: nat where
  "BOOT_BLOCK_SECTORS = 2"

text \<open>\<^verbatim>\<open>Date.UTC(1904, 0, 1) / 1000\<close>: 24107 days before 1970, in seconds.\<close>

definition MFS_EPOCH_OFFSET :: int where
  "MFS_EPOCH_OFFSET = - 2082844800"

text \<open>
  Every \<^verbatim>\<open>throw\<close> of the library, and the \<^verbatim>\<open>RangeError\<close> that a \<^verbatim>\<open>DataView\<close> access outside
  the buffer raises:
  \<^item> \<open>InvalidConstructorArgument\<close>: "Invalid constructor argument: ..."
  \<^item> \<open>InvalidSignature\<close>: "Invalid MFS signature. ..."
  \<^item> \<open>SizeNotSectorMultiple\<close>: "Image size (..KB) must be a multiple of sector size ..."
  \<^item> \<open>ImageTooSmall\<close>: "Image size too small for basic MFS structures."
  \<^item> \<open>AbmValueExceeds12Bit\<close>: "ABM value exceeds 12-bit range" (the spec's InvalidArgument)
  \<^item> \<open>InvalidBlockNumber\<close>: "Invalid MFS block number for ABM lookup/update: ..."
  \<^item> \<open>NotEnoughFreeBlocks\<close>: "Not enough free blocks ..." (the spec's DiskFull)
  \<^item> \<open>DirectoryFull\<close>: "File directory is full. Expansion not yet supported."
  \<^item> \<open>InvalidFilename\<close>: "Invalid filename or filename too long."
  \<^item> \<open>InvalidMetadata\<close>: "File type and creator (4 chars each) are required in metadata."
  \<^item> \<open>FileNotFound\<close>: "File not found for deletion/reading: ..."
  \<^item> \<open>InvalidForkType\<close>: "Invalid fork type: ..."
  \<^item> \<open>CorruptedChain\<close>: "Corrupted file chain for ..."
\<close>

datatype MFSError =
    RangeError
  | InvalidConstructorArgument
  | InvalidSignature
  | SizeNotSectorMultiple
  | ImageTooSmall
  | AbmValueExceeds12Bit
  | InvalidBlockNumber
  | NotEnoughFreeBlocks
  | DirectoryFull
  | InvalidFilename
  | InvalidMetadata
  | FileNotFound
  | InvalidForkType
  | CorruptedChain

text \<open>Sequencing of calls that may throw: the first exception is the result.\<close>

definition bindE :: "'e + 'a \<Rightarrow> ('a \<Rightarrow> 'e + 'b) \<Rightarrow> 'e + 'b" where
  "bindE m f = (case m of Inl e \<Rightarrow> Inl e | Inr x \<Rightarrow> f x)"

lemma bindE_cong [fundef_cong]:
  "m = m' \<Longrightarrow> (\<And>x. m' = Inr x \<Longrightarrow> f x = f' x) \<Longrightarrow> bindE m f = bindE m' f'"
  by (cases m') (simp_all add: bindE_def)

lemma bindE_simps [simp]:
  "bindE (Inl e) f = Inl e" "bindE (Inr x) f = f x"
  by (simp_all add: bindE_def)

subsection \<open>MFSLibUtils: DataView access\<close>

text \<open>
  Reads return the number read. Writes take a JavaScript number (an integer here) and
  store it modulo the width, as \<^verbatim>\<open>setUint8\<close>, \<^verbatim>\<open>setUint16\<close> and \<^verbatim>\<open>setUint32\<close> do; an
  access that does not lie inside the buffer throws and changes nothing.
\<close>

definition readUint8 :: "byte list \<Rightarrow> nat \<Rightarrow> MFSError + nat" where
  "readUint8 dataView offset =
     (if offset + 1 \<le> length dataView then Inr (unat (dataView ! offset)) else Inl RangeError)"

definition readUint16BE :: "byte list \<Rightarrow> nat \<Rightarrow> MFSError + nat" where
  "readUint16BE dataView offset =
     (if offset + 2 \<le> length dataView
      then Inr (unat (dataView ! offset) * 256 + unat (dataView ! (offset + 1)))
      else Inl RangeError)"

definition readUint32BE :: "byte list \<Rightarrow> nat \<Rightarrow> MFSError + nat" where
  "readUint32BE dataView offset =
     (if offset + 4 \<le> length dataView
      then Inr (unat (dataView ! offset) * 16777216 + unat (dataView ! (offset + 1)) * 65536
                + unat (dataView ! (offset + 2)) * 256 + unat (dataView ! (offset + 3)))
      else Inl RangeError)"

definition writeUint8 :: "byte list \<Rightarrow> nat \<Rightarrow> int \<Rightarrow> MFSError + byte list" where
  "writeUint8 dataView offset v =
     (if offset + 1 \<le> length dataView then Inr (dataView[offset := word_of_int v])
      else Inl RangeError)"

definition writeUint16BE :: "byte list \<Rightarrow> nat \<Rightarrow> int \<Rightarrow> MFSError + byte list" where
  "writeUint16BE dataView offset v =
     (if offset + 2 \<le> length dataView
      then Inr (dataView[offset := word_of_int (v div 256), offset + 1 := word_of_int v])
      else Inl RangeError)"

definition writeUint32BE :: "byte list \<Rightarrow> nat \<Rightarrow> int \<Rightarrow> MFSError + byte list" where
  "writeUint32BE dataView offset v =
     (if offset + 4 \<le> length dataView
      then Inr (dataView[offset := word_of_int (v div 16777216),
                         offset + 1 := word_of_int (v div 65536),
                         offset + 2 := word_of_int (v div 256),
                         offset + 3 := word_of_int v])
      else Inl RangeError)"

text \<open>
  A straight-line sequence of writes. When one of them throws, the writes before it stay
  in the buffer: the result is the exception, if any, and the buffer as it then is.
\<close>

datatype WriteOp = SetUint8 nat int | SetUint16BE nat int | SetUint32BE nat int

fun applyWrite :: "byte list \<Rightarrow> WriteOp \<Rightarrow> MFSError + byte list" where
  "applyWrite dataView (SetUint8 offset v) = writeUint8 dataView offset v"
| "applyWrite dataView (SetUint16BE offset v) = writeUint16BE dataView offset v"
| "applyWrite dataView (SetUint32BE offset v) = writeUint32BE dataView offset v"

fun applyWrites :: "byte list \<Rightarrow> WriteOp list \<Rightarrow> MFSError option \<times> byte list" where
  "applyWrites dataView [] = (None, dataView)"
| "applyWrites dataView (w # ws) =
     (case applyWrite dataView w of
        Inl e \<Rightarrow> (Some e, dataView)
      | Inr dataView' \<Rightarrow> applyWrites dataView' ws)"

subsection \<open>MFSLibUtils: Pascal strings and timestamps\<close>

text \<open>
  JavaScript strings are modelled by \<open>string\<close>: the code units are below 256, as they
  are for every string the library reads from an image.
\<close>

definition fromCharCode :: "nat \<Rightarrow> char" where
  "fromCharCode n = char_of n"

definition charCode :: "char \<Rightarrow> int" where
  "charCode c = of_char c"

fun readChars :: "byte list \<Rightarrow> nat \<Rightarrow> nat \<Rightarrow> MFSError + string" where
  "readChars dataView offset 0 = Inr []"
| "readChars dataView offset (Suc n) =
     bindE (readUint8 dataView offset) (\<lambda>c.
     bindE (readChars dataView (offset + 1) n) (\<lambda>cs. Inr (fromCharCode c # cs)))"

definition readPascalString :: "byte list \<Rightarrow> nat \<Rightarrow> nat \<Rightarrow> MFSError + string" where
  "readPascalString dataView offset maxLength =
     bindE (readUint8 dataView offset) (\<lambda>len.
       let actualLength = min len maxLength
       in readChars dataView (offset + 1) actualLength)"

text \<open>The writes of \<^verbatim>\<open>writePascalString(dataView, offset, str, fixedLength)\<close>, in order.\<close>

definition writePascalString :: "nat \<Rightarrow> string \<Rightarrow> nat \<Rightarrow> WriteOp list" where
  "writePascalString offset str fixedLength =
     (let len = min (length str) (fixedLength - 1)
      in [SetUint8 offset (int len)]
         @ map (\<lambda>i. SetUint8 (offset + 1 + i) (charCode (str ! i))) [0..<len]
         @ map (\<lambda>i. SetUint8 (offset + 1 + i) 0) [len..<fixedLength - 1])"

text \<open>A \<^verbatim>\<open>Date\<close> is its time value in milliseconds; \<^verbatim>\<open>null\<close> is \<open>None\<close>.\<close>

type_synonym Date = "int option"

definition mfsTimestampToDate :: "nat \<Rightarrow> Date" where
  "mfsTimestampToDate mfsTime =
     (if mfsTime = 0 then None else Some ((int mfsTime + MFS_EPOCH_OFFSET) * 1000))"

definition dateToMFSTimestamp :: "Date \<Rightarrow> int" where
  "dateToMFSTimestamp date =
     (case date of None \<Rightarrow> 0 | Some ms \<Rightarrow> ms div 1000 - MFS_EPOCH_OFFSET)"

subsection \<open>MFSLibUtils: the 12-bit allocation block map entries\<close>

definition getABMEntryFromTriplet :: "nat \<Rightarrow> nat \<Rightarrow> nat \<Rightarrow> bool \<Rightarrow> nat" where
  "getABMEntryFromTriplet b0 b1 b2 isEvenIndex =
     (if isEvenIndex then push_bit 4 b0 OR drop_bit 4 b1
      else push_bit 8 (b1 AND 0x0F) OR b2)"

definition packABMEntryToTriplet ::
    "nat \<Rightarrow> nat \<Rightarrow> nat \<Rightarrow> nat \<Rightarrow> bool \<Rightarrow> MFSError + (nat \<times> nat \<times> nat)" where
  "packABMEntryToTriplet v b0 b1 b2 isEvenIndex =
     (if v > 0xFFF then Inl AbmValueExceeds12Bit
      else if isEvenIndex then
        Inr (drop_bit 4 v AND 0xFF, (b1 AND 0x0F) OR push_bit 4 (v AND 0x0F), b2)
      else
        Inr (b0, (b1 AND 0xF0) OR (drop_bit 8 v AND 0x0F), v AND 0xFF))"

subsection \<open>MFSVolume: the state of a volume object\<close>

text \<open>
  \<^verbatim>\<open>this.volumeInfo\<close>. The three counters that the code computes by subtraction are
  integers; \<^verbatim>\<open>creationDate\<close> and \<^verbatim>\<open>modificationDate\<close> carry the prefix \<open>vol_\<close>, because the
  directory entries have fields of the same names.
\<close>

record MFSVolumeInfo =
  signature :: nat
  vol_creationDate :: Date
  vol_modificationDate :: Date
  attributes :: nat
  numFiles :: int
  dirStartBlock :: nat
  dirLengthBlocks :: nat
  numAllocBlocks :: int
  allocBlockSize :: nat
  clumpSize :: nat
  allocBlockStartSector :: nat
  nextFileNum :: nat
  freeAllocBlocks :: int
  volumeName :: string

text \<open>
  An element of \<^verbatim>\<open>this.fileDirectory\<close>. \<open>diskOffset\<close> and \<open>entryLength\<close> are the source's
  \<^verbatim>\<open>_diskOffset\<close> and \<^verbatim>\<open>_entryLength\<close>, \<open>fileType\<close> is \<^verbatim>\<open>type\<close>, and \<open>iconPosition\<close> is the pair
  \<^verbatim>\<open>(v, h)\<close>.
\<close>

record MFSFileEntry =
  diskOffset :: nat
  flags :: nat
  version :: nat
  fileType :: string
  creator :: string
  finderFlags :: int
  iconPosition :: "int \<times> int"
  folderNum :: int
  fileNum :: nat
  dataForkStartBlock :: nat
  dataForkLogicalLength :: nat
  dataForkAllocLength :: nat
  resourceForkStartBlock :: nat
  resourceForkLogicalLength :: nat
  resourceForkAllocLength :: nat
  creationDate :: Date
  modificationDate :: Date
  filename :: string
  entryLength :: nat

text \<open>
  The volume object. \<^verbatim>\<open>this.abm\<close> is a JavaScript array used as a table from index to
  value: reading an index that was never assigned gives \<^verbatim>\<open>undefined\<close>, here \<open>None\<close>.
\<close>

record MFSVolume =
  imageBuffer :: "byte list"
  volumeInfo :: MFSVolumeInfo
  abm :: "nat \<rightharpoonup> nat"
  fileDirectory :: "MFSFileEntry list"

subsection \<open>_parseMDB\<close>

definition mdbOffset :: nat where
  "mdbOffset = MDB_START_SECTOR * SECTOR_SIZE"

definition abmOffsetInMDB :: nat where
  "abmOffsetInMDB = 64"

definition abmDiskOffset :: nat where
  "abmDiskOffset = mdbOffset + abmOffsetInMDB"

text \<open>The \<^verbatim>\<open>for\<close> loop of \<^verbatim>\<open>_parseMDB\<close> that decodes the allocation block map.\<close>

function parseABMLoop :: "byte list \<Rightarrow> nat \<Rightarrow> nat \<Rightarrow> (nat \<rightharpoonup> nat) \<Rightarrow> MFSError + (nat \<rightharpoonup> nat)" where
  "parseABMLoop dataView nmAlBlks i abmArr =
     (if i < nmAlBlks then
        let tripletIndex = i div 2;
            byteOffsetInABMData = tripletIndex * 3
        in bindE (readUint8 dataView (abmDiskOffset + byteOffsetInABMData)) (\<lambda>b0.
           bindE (readUint8 dataView (abmDiskOffset + byteOffsetInABMData + 1)) (\<lambda>b1.
           bindE (readUint8 dataView (abmDiskOffset + byteOffsetInABMData + 2)) (\<lambda>b2.
             let isEvenIndexInTriplet = (i mod 2 = 0)
             in parseABMLoop dataView nmAlBlks (i + 1)
                  (abmArr(i \<mapsto> getABMEntryFromTriplet b0 b1 b2 isEvenIndexInTriplet)))))
      else Inr abmArr)"
  by pat_completeness auto
termination
  by (relation "measure (\<lambda>(dataView, nmAlBlks, i, abmArr). nmAlBlks - i)") auto

declare parseABMLoop.simps [simp del]

definition parseMDB :: "byte list \<Rightarrow> MFSError + (MFSVolumeInfo \<times> (nat \<rightharpoonup> nat))" where
  "parseMDB dataView =
     bindE (readUint16BE dataView (mdbOffset + 0)) (\<lambda>signature.
     bindE (readUint32BE dataView (mdbOffset + 2)) (\<lambda>crDate.
     bindE (readUint32BE dataView (mdbOffset + 6)) (\<lambda>lsMod.
     bindE (readUint16BE dataView (mdbOffset + 10)) (\<lambda>attributes.
     bindE (readUint16BE dataView (mdbOffset + 12)) (\<lambda>numFiles.
     bindE (readUint16BE dataView (mdbOffset + 14)) (\<lambda>dirStartBlock.
     bindE (readUint16BE dataView (mdbOffset + 16)) (\<lambda>dirLengthBlocks.
     bindE (readUint16BE dataView (mdbOffset + 18)) (\<lambda>numAllocBlocks.
     bindE (readUint32BE dataView (mdbOffset + 20)) (\<lambda>allocBlockSize.
     bindE (readUint32BE dataView (mdbOffset + 24)) (\<lambda>clumpSize.
     bindE (readUint16BE dataView (mdbOffset + 28)) (\<lambda>allocBlockStartSector.
     bindE (readUint32BE dataView (mdbOffset + 30)) (\<lambda>nextFileNum.
     bindE (readUint16BE dataView (mdbOffset + 34)) (\<lambda>freeAllocBlocks.
     bindE (readPascalString dataView (mdbOffset + 36) 27) (\<lambda>volumeName.
     bindE (parseABMLoop dataView numAllocBlocks 0 Map.empty) (\<lambda>abm.
       Inr (\<lparr>signature = signature,
              vol_creationDate = mfsTimestampToDate crDate,
              vol_modificationDate = mfsTimestampToDate lsMod,
              attributes = attributes,
              numFiles = int numFiles,
              dirStartBlock = dirStartBlock,
              dirLengthBlocks = dirLengthBlocks,
              numAllocBlocks = int numAllocBlocks,
              allocBlockSize = allocBlockSize,
              clumpSize = clumpSize,
              allocBlockStartSector = allocBlockStartSector,
              nextFileNum = nextFileNum,
              freeAllocBlocks = int freeAllocBlocks,
              volumeName = volumeName\<rparr>, abm))))))))))))))))"

subsection \<open>_writeMDB\<close>

text \<open>The header writes of \<^verbatim>\<open>_writeMDB\<close>, in the order of the source.\<close>

definition mdbHeaderWrites :: "MFSVolumeInfo \<Rightarrow> WriteOp list" where
  "mdbHeaderWrites vi =
     [SetUint16BE (mdbOffset + 0) (int (signature vi)),
      SetUint32BE (mdbOffset + 2) (dateToMFSTimestamp (vol_creationDate vi)),
      SetUint32BE (mdbOffset + 6) (dateToMFSTimestamp (vol_modificationDate vi)),
      SetUint16BE (mdbOffset + 10) (int (attributes vi)),
      SetUint16BE (mdbOffset + 12) (numFiles vi),
      SetUint16BE (mdbOffset + 14) (int (dirStartBlock vi)),
      SetUint16BE (mdbOffset + 16) (int (dirLengthBlocks vi)),
      SetUint16BE (mdbOffset + 18) (numAllocBlocks vi),
      SetUint32BE (mdbOffset + 20) (int (allocBlockSize vi)),
      SetUint32BE (mdbOffset + 24) (int (clumpSize vi)),
      SetUint16BE (mdbOffset + 28) (int (allocBlockStartSector vi)),
      SetUint32BE (mdbOffset + 30) (int (nextFileNum vi)),
      SetUint16BE (mdbOffset + 34) (freeAllocBlocks vi)]
     @ writePascalString (mdbOffset + 36) (volumeName vi) 28"

text \<open>
  The \<^verbatim>\<open>for (let i = 0; i < numAllocBlocks; i += 2)\<close> loop of \<^verbatim>\<open>_writeMDB\<close>. The array written is
  \<^verbatim>\<open>this.abm\<close>: the flag \<^verbatim>\<open>_isFormattingNewImageInProgress\<close> that would replace it is never set
  anywhere in the library. An entry that is \<^verbatim>\<open>undefined\<close> is written as 0.
\<close>

function writeABMLoop :: "byte list \<Rightarrow> (nat \<rightharpoonup> nat) \<Rightarrow> int \<Rightarrow> nat \<Rightarrow> MFSError option \<times> byte list" where
  "writeABMLoop dataView tempABMForWriting nmAlBlks i =
     (if int i < nmAlBlks then
        let tripletIndex = i div 2;
            byteOffsetInABMData = tripletIndex * 3;
            at = abmDiskOffset + byteOffsetInABMData;
            (b0, b1, b2) =
              (if at + 2 < length dataView
               then (unat (dataView ! at), unat (dataView ! (at + 1)), unat (dataView ! (at + 2)))
               else (0, 0, 0));
            val1 = (case tempABMForWriting i of Some v \<Rightarrow> v | None \<Rightarrow> 0)
        in case packABMEntryToTriplet val1 b0 b1 b2 True of
             Inl e \<Rightarrow> (Some e, dataView)
           | Inr (b0, b1, b2) \<Rightarrow>
               (case (if int (i + 1) < nmAlBlks then
                        let val2 = (case tempABMForWriting (i + 1) of Some v \<Rightarrow> v | None \<Rightarrow> 0)
                        in packABMEntryToTriplet val2 b0 b1 b2 False
                      else Inr (b0, b1, b2)) of
                  Inl e \<Rightarrow> (Some e, dataView)
                | Inr (b0, b1, b2) \<Rightarrow>
                    (case applyWrites dataView
                            [SetUint8 at (int b0), SetUint8 (at + 1) (int b1),
                             SetUint8 (at + 2) (int b2)] of
                       (Some e, dataView') \<Rightarrow> (Some e, dataView')
                     | (None, dataView') \<Rightarrow>
                         writeABMLoop dataView' tempABMForWriting nmAlBlks (i + 2)))
      else (None, dataView))"
  by pat_completeness auto
termination
  by (relation "measure (\<lambda>(dataView, abmArr, nmAlBlks, i). nat nmAlBlks - i)") auto

declare writeABMLoop.simps [simp del]

text \<open>\<^verbatim>\<open>_writeMDB\<close> changes the image buffer only.\<close>

definition writeMDB :: "MFSVolume \<Rightarrow> MFSError option \<times> MFSVolume" where
  "writeMDB vol =
     (case applyWrites (imageBuffer vol) (mdbHeaderWrites (volumeInfo vol)) of
        (Some e, dataView) \<Rightarrow> (Some e, vol\<lparr>imageBuffer := dataView\<rparr>)
      | (None, dataView) \<Rightarrow>
          (case writeABMLoop dataView (abm vol) (numAllocBlocks (volumeInfo vol)) 0 of
             (e, dataView') \<Rightarrow> (e, vol\<lparr>imageBuffer := dataView'\<rparr>)))"

subsection \<open>The 12-bit codec on one triplet\<close>

lemma const_0F: "(0x0F::nat) = mask 4" by (simp add: mask_eq_exp_minus_1)
lemma const_FF: "(0xFF::nat) = mask 8" by (simp add: mask_eq_exp_minus_1)
lemma const_F0: "(0xF0::nat) = push_bit 4 (mask 4)" by (simp add: mask_eq_exp_minus_1 push_bit_eq_mult)

lemma bit_le_FFF: "(v::nat) \<le> 0xFFF \<Longrightarrow> bit v n \<Longrightarrow> n < 12"
proof -
  assume a: "v \<le> 0xFFF" "bit v n"
  have "take_bit 12 v = v" using a(1) by (simp add: take_bit_nat_eq_self_iff)
  then have "bit (take_bit 12 v) n" using a(2) by simp
  then show ?thesis by (simp add: bit_take_bit_iff)
qed

lemma bit_lt_256: "(v::nat) < 256 \<Longrightarrow> bit v n \<Longrightarrow> n < 8"
proof -
  assume a: "v < 256" "bit v n"
  have "take_bit 8 v = v" using a(1) by (simp add: take_bit_nat_eq_self_iff)
  then have "bit (take_bit 8 v) n" using a(2) by simp
  then show ?thesis by (simp add: bit_take_bit_iff)
qed

lemma lt_256I:
  assumes "\<And>n. bit (x::nat) n \<Longrightarrow> n < 8"
  shows "x < 256"
proof -
  have "take_bit 8 x = x"
    by (rule bit_eqI) (use assms in \<open>auto simp: bit_take_bit_iff\<close>)
  moreover have "take_bit 8 x < 2 ^ 8" by (rule take_bit_nat_less_exp)
  ultimately show ?thesis by simp
qed

lemma pack_even:
  "v \<le> 0xFFF \<Longrightarrow> packABMEntryToTriplet v b0 b1 b2 True =
     Inr (drop_bit 4 v AND mask 8, (b1 AND mask 4) OR push_bit 4 (v AND mask 4), b2)"
  by (simp add: packABMEntryToTriplet_def const_0F[symmetric] const_FF[symmetric])

lemma pack_odd:
  "v \<le> 0xFFF \<Longrightarrow> packABMEntryToTriplet v b0 b1 b2 False =
     Inr (b0, (b1 AND push_bit 4 (mask 4)) OR (drop_bit 8 v AND mask 4), v AND mask 8)"
  by (simp add: packABMEntryToTriplet_def const_0F[symmetric] const_FF[symmetric] const_F0[symmetric])

lemma pack_too_big:
  "0xFFF < v \<Longrightarrow> packABMEntryToTriplet v b0 b1 b2 isEvenIndex = Inl AbmValueExceeds12Bit"
  by (simp add: packABMEntryToTriplet_def)

lemma get_even: "getABMEntryFromTriplet b0 b1 b2 True = push_bit 4 b0 OR drop_bit 4 b1"
  by (simp add: getABMEntryFromTriplet_def)

lemma get_odd: "getABMEntryFromTriplet b0 b1 b2 False = push_bit 8 (b1 AND mask 4) OR b2"
  by (simp add: getABMEntryFromTriplet_def const_0F[symmetric])

lemma even_bits:
  assumes "(v::nat) \<le> 0xFFF"
  shows "push_bit 4 (drop_bit 4 v AND mask 8)
           OR drop_bit 4 ((b1 AND mask 4) OR push_bit 4 (v AND mask 4)) = v"
proof (rule bit_eqI)
  fix n
  have "bit v n \<Longrightarrow> n < 12" by (rule bit_le_FFF[OF assms(1)])
  then show "bit (push_bit 4 (drop_bit 4 v AND mask 8)
           OR drop_bit 4 ((b1 AND mask 4) OR push_bit 4 (v AND mask 4))) n = bit v n"
    by (auto simp: bit_simps)
qed

lemma odd_bits:
  assumes "(v::nat) \<le> 0xFFF"
  shows "push_bit 8 (((b1 AND push_bit 4 (mask 4)) OR (drop_bit 8 v AND mask 4)) AND mask 4)
           OR (v AND mask 8) = v"
proof (rule bit_eqI)
  fix n
  have "bit v n \<Longrightarrow> n < 12" by (rule bit_le_FFF[OF assms(1)])
  then show "bit (push_bit 8 (((b1 AND push_bit 4 (mask 4)) OR (drop_bit 8 v AND mask 4)) AND mask 4)
           OR (v AND mask 8)) n = bit v n"
    by (auto simp: bit_simps)
qed

text \<open>Writing the odd entry keeps the even entry, for a middle byte below 256.\<close>

lemma odd_keeps_even:
  assumes "(b1::nat) < 256"
  shows "drop_bit 4 ((b1 AND push_bit 4 (mask 4)) OR (drop_bit 8 v AND mask 4)) = drop_bit 4 b1"
proof (rule bit_eqI)
  fix n
  have "bit b1 (4 + n) \<Longrightarrow> 4 + n < 8" by (rule bit_lt_256[OF assms(1)])
  then show "bit (drop_bit 4 ((b1 AND push_bit 4 (mask 4)) OR (drop_bit 8 v AND mask 4))) n
              = bit (drop_bit 4 b1) n"
    by (auto simp: bit_simps)
qed

text \<open>The untouched nibble of the middle byte.\<close>

lemma even_keeps_low_nibble:
  "((b1 AND mask 4) OR push_bit 4 (v AND mask 4)) AND mask 4 = (b1::nat) AND mask 4"
  by (rule bit_eqI) (auto simp: bit_simps)

lemma odd_keeps_high_nibble:
  "((b1 AND push_bit 4 (mask 4)) OR (drop_bit 8 v AND mask 4)) AND push_bit 4 (mask 4)
     = (b1::nat) AND push_bit 4 (mask 4)"
  by (rule bit_eqI) (auto simp: bit_simps)

lemma even_b0_lt: "drop_bit 4 (v::nat) AND mask 8 < 256"
  by (rule lt_256I) (auto simp: bit_simps)

lemma even_b1_lt: "((b1::nat) AND mask 4) OR push_bit 4 (v AND mask 4) < 256"
  by (rule lt_256I) (auto simp: bit_simps)

lemma odd_b1_lt: "((b1::nat) AND push_bit 4 (mask 4)) OR (drop_bit 8 v AND mask 4) < 256"
  by (rule lt_256I) (auto simp: bit_simps)

lemma odd_b2_lt: "(v::nat) AND mask 8 < 256"
  by (rule lt_256I) (auto simp: bit_simps)

subsection \<open>The allocation block map in the image\<close>

text \<open>The value \<^verbatim>\<open>_writeMDB\<close> writes for index \<open>k\<close>: the entry, or 0 when it is \<^verbatim>\<open>undefined\<close>.\<close>

definition abmValue :: "(nat \<rightharpoonup> nat) \<Rightarrow> nat \<Rightarrow> nat" where
  "abmValue abmArr k = (case abmArr k of Some v \<Rightarrow> v | None \<Rightarrow> 0)"

text \<open>The 12-bit entry with index \<open>k\<close> as the bytes of the image encode it.\<close>

definition abmEntryOnDisk :: "byte list \<Rightarrow> nat \<Rightarrow> nat" where
  "abmEntryOnDisk dataView k =
     (let at = abmDiskOffset + (k div 2) * 3
      in getABMEntryFromTriplet (unat (dataView ! at)) (unat (dataView ! (at + 1)))
           (unat (dataView ! (at + 2))) (k mod 2 = 0))"

text \<open>A sequence of values as the array \<^verbatim>\<open>this.abm\<close>.\<close>

definition abmOfList :: "nat list \<Rightarrow> (nat \<rightharpoonup> nat)" where
  "abmOfList vs = (\<lambda>i. if i < length vs then Some (vs ! i) else None)"

lemma unat_byte_of_nat: "c < 256 \<Longrightarrow> unat (word_of_nat c :: byte) = c"
  by (simp add: unat_of_nat)

lemma unat_byte_of_int: "c < 256 \<Longrightarrow> unat (word_of_int (int c) :: byte) = c"
  by (simp add: unat_of_nat)

lemma unat_byte_lt: "unat (b :: byte) < 256"
  using unsigned_less[of b, where ?'a = nat] by simp

lemma writeABMLoop_done: "\<not> int i < n \<Longrightarrow> writeABMLoop dv abmArr n i = (None, dv)"
  by (subst writeABMLoop.simps) simp

lemma writeABMLoop_step:
  assumes i: "i < n" "even i"
    and fit: "abmDiskOffset + (i div 2) * 3 + 3 \<le> length dv"
    and v1: "abmValue abmArr i \<le> 0xFFF"
    and v2: "i + 1 < n \<Longrightarrow> abmValue abmArr (i + 1) \<le> 0xFFF"
  shows "\<exists>dv1. writeABMLoop dv abmArr (int n) i = writeABMLoop dv1 abmArr (int n) (i + 2)
           \<and> length dv1 = length dv
           \<and> (\<forall>j. j < abmDiskOffset + (i div 2) * 3 \<or> abmDiskOffset + (i div 2) * 3 + 3 \<le> j
                  \<longrightarrow> dv1 ! j = dv ! j)
           \<and> abmEntryOnDisk dv1 i = abmValue abmArr i
           \<and> (i + 1 < n \<longrightarrow> abmEntryOnDisk dv1 (i + 1) = abmValue abmArr (i + 1))"
proof -
  let ?at = "abmDiskOffset + (i div 2) * 3"
  let ?b1 = "unat (dv ! (?at + 1))"
  let ?b2 = "unat (dv ! (?at + 2))"
  let ?w1 = "abmValue abmArr i"
  let ?w2 = "abmValue abmArr (i + 1)"
  let ?c0 = "drop_bit 4 ?w1 AND mask 8"
  let ?c1 = "(?b1 AND mask 4) OR push_bit 4 (?w1 AND mask 4)"
  let ?d1 = "(if i + 1 < n then (?c1 AND push_bit 4 (mask 4)) OR (drop_bit 8 ?w2 AND mask 4) else ?c1)"
  let ?d2 = "(if i + 1 < n then ?w2 AND mask 8 else ?b2)"
  define dv1 where "dv1 = dv[?at := word_of_int (int ?c0), ?at + 1 := word_of_int (int ?d1),
                            ?at + 2 := word_of_int (int ?d2)]"
  define at where "at = ?at"
  define b1 where "b1 = ?b1"
  define b2 where "b2 = ?b2"
  define w1 where "w1 = ?w1"
  define w2 where "w2 = ?w2"
  define c0 where "c0 = ?c0"
  define c1 where "c1 = ?c1"
  define d1 where "d1 = ?d1"
  define d2 where "d2 = ?d2"
  have fit': "at + 3 \<le> length dv" using fit by (simp add: at_def)
  have c0: "c0 < 256" unfolding c0_def by (rule even_b0_lt)
  have c1: "c1 < 256" unfolding c1_def by (rule even_b1_lt)
  have b2: "b2 < 256" unfolding b2_def by (rule unat_byte_lt)
  have d1: "d1 < 256" unfolding d1_def using c1 by (simp add: odd_b1_lt c1_def)
  have d2: "d2 < 256" unfolding d2_def using b2 by (simp add: odd_b2_lt b2_def)
  have w1: "w1 \<le> 0xFFF" using v1 by (simp add: w1_def)
  have w2: "i + 1 < n \<Longrightarrow> w2 \<le> 0xFFF" using v2 by (simp add: w2_def)
  have step: "writeABMLoop dv abmArr (int n) i = writeABMLoop dv1 abmArr (int n) (i + 2)"
  proof (cases "i + 1 < n")
    case True
    show ?thesis
      using i fit True v1 v2[OF True]
      by (subst writeABMLoop.simps)
         (simp add: Let_def abmValue_def[symmetric] pack_even pack_odd writeUint8_def dv1_def)
  next
    case False
    show ?thesis
      using i fit False v1
      by (subst writeABMLoop.simps)
         (simp add: Let_def abmValue_def[symmetric] pack_even writeUint8_def dv1_def)
  qed
  have dv1': "dv1 = dv[at := word_of_int (int c0), at + 1 := word_of_int (int d1),
                            at + 2 := word_of_int (int d2)]"
    by (simp add: dv1_def at_def c0_def d1_def d2_def w1_def w2_def c1_def b1_def b2_def)
  have len: "length dv1 = length dv" by (simp add: dv1')
  have frame: "\<forall>j. j < at \<or> at + 3 \<le> j \<longrightarrow> dv1 ! j = dv ! j"
    by (auto simp: dv1')
  have rd: "unat (dv1 ! at) = c0" "unat (dv1 ! (at + 1)) = d1" "unat (dv1 ! (at + 2)) = d2"
    using fit' c0 d1 d2 by (simp_all add: dv1' unat_byte_of_nat)
  have ev: "i mod 2 = 0" using i(2) by presburger
  have od: "(i + 1) mod 2 \<noteq> 0" "(i + 1) div 2 = i div 2" using i(2) by presburger+
  have d1T: "i + 1 < n \<Longrightarrow> d1 = (c1 AND push_bit 4 (mask 4)) OR (drop_bit 8 w2 AND mask 4)"
    and d2T: "i + 1 < n \<Longrightarrow> d2 = w2 AND mask 8"
    and d1F: "\<not> i + 1 < n \<Longrightarrow> d1 = c1"
    by (simp_all only: d1_def d2_def c1_def w2_def if_True if_False)
  have c1': "c1 = (b1 AND mask 4) OR push_bit 4 (w1 AND mask 4)"
    by (simp only: c1_def b1_def w1_def)
  have c0': "c0 = drop_bit 4 w1 AND mask 8"
    by (simp only: c0_def w1_def)
  have ent_even: "abmEntryOnDisk dv1 i = push_bit 4 c0 OR drop_bit 4 d1"
    using rd by (simp add: abmEntryOnDisk_def Let_def at_def[symmetric] ev get_even)
  have ent_odd: "abmEntryOnDisk dv1 (i + 1) = push_bit 8 (d1 AND mask 4) OR d2"
    using od rd by (simp add: abmEntryOnDisk_def Let_def at_def[symmetric] get_odd)
  have e1: "abmEntryOnDisk dv1 i = w1"
  proof (cases "i + 1 < n")
    case True
    have "push_bit 4 c0 OR drop_bit 4 d1 = push_bit 4 c0 OR drop_bit 4 c1"
      by (simp only: d1T[OF True] odd_keeps_even[OF c1])
    also have "\<dots> = w1" unfolding c0' c1' by (rule even_bits[OF w1])
    finally show ?thesis by (simp only: ent_even)
  next
    case False
    have "push_bit 4 c0 OR drop_bit 4 d1 = w1"
      unfolding d1F[OF False] c0' c1' by (rule even_bits[OF w1])
    then show ?thesis by (simp only: ent_even)
  qed
  have e2: "i + 1 < n \<longrightarrow> abmEntryOnDisk dv1 (i + 1) = w2"
  proof
    assume t: "i + 1 < n"
    have "push_bit 8 (d1 AND mask 4) OR d2 = w2"
      unfolding d1T[OF t] d2T[OF t] by (rule odd_bits[OF w2[OF t]])
    then show "abmEntryOnDisk dv1 (i + 1) = w2" by (simp only: ent_odd)
  qed
  show ?thesis
    using step len frame e1 e2 unfolding at_def w1_def w2_def by blast
qed

lemma abmEntryOnDisk_cong:
  "(\<And>j. abmDiskOffset + (k div 2) * 3 \<le> j \<Longrightarrow> j < abmDiskOffset + (k div 2) * 3 + 3
       \<Longrightarrow> dv' ! j = dv ! j)
   \<Longrightarrow> abmEntryOnDisk dv' k = abmEntryOnDisk dv k"
  by (simp add: abmEntryOnDisk_def Let_def)

lemma triplet_fits:
  "k < n \<Longrightarrow> abmDiskOffset + ((n + 1) div 2) * 3 \<le> L \<Longrightarrow> abmDiskOffset + (k div 2) * 3 + 3 \<le> L"
proof -
  assume a: "k < n" "abmDiskOffset + ((n + 1) div 2) * 3 \<le> L"
  have "k div 2 + 1 \<le> (n + 1) div 2" using a(1) by presburger
  then have "(k div 2 + 1) * 3 \<le> ((n + 1) div 2) * 3" by (rule mult_le_mono1)
  then show ?thesis using a(2) by simp
qed

lemma writeABMLoop_all:
  assumes "even i" "abmDiskOffset + ((n + 1) div 2) * 3 \<le> length dv"
    and "\<And>k. i \<le> k \<Longrightarrow> k < n \<Longrightarrow> abmValue abmArr k \<le> 0xFFF"
  shows "\<exists>dv'. writeABMLoop dv abmArr (int n) i = (None, dv') \<and> length dv' = length dv
           \<and> (\<forall>j. j < abmDiskOffset + (i div 2) * 3 \<or> abmDiskOffset + ((n + 1) div 2) * 3 \<le> j
                  \<longrightarrow> dv' ! j = dv ! j)
           \<and> (\<forall>k. i \<le> k \<and> k < n \<longrightarrow> abmEntryOnDisk dv' k = abmValue abmArr k)"
  using assms
proof (induction "n - i" arbitrary: i dv rule: less_induct)
  case less
  show ?case
  proof (cases "i < n")
    case False
    then show ?thesis by (simp add: writeABMLoop_done)
  next
    case True
    let ?at = "abmDiskOffset + (i div 2) * 3"
    have fit: "?at + 3 \<le> length dv" using triplet_fits[OF True less.prems(2)] .
    obtain dv1 where s: "writeABMLoop dv abmArr (int n) i = writeABMLoop dv1 abmArr (int n) (i + 2)"
      and l1: "length dv1 = length dv"
      and f1: "\<And>j. j < ?at \<or> ?at + 3 \<le> j \<Longrightarrow> dv1 ! j = dv ! j"
      and e1: "abmEntryOnDisk dv1 i = abmValue abmArr i"
      and e2: "i + 1 < n \<Longrightarrow> abmEntryOnDisk dv1 (i + 1) = abmValue abmArr (i + 1)"
      using writeABMLoop_step[OF True less.prems(1) fit less.prems(3)[of i] less.prems(3)[of "i + 1"]]
        True by auto
    have d: "n - (i + 2) < n - i" using True by simp
    have ev2: "even (i + 2)" using less.prems(1) by simp
    have b2: "abmDiskOffset + ((n + 1) div 2) * 3 \<le> length dv1" using less.prems(2) l1 by simp
    have p3: "\<And>k. i + 2 \<le> k \<Longrightarrow> k < n \<Longrightarrow> abmValue abmArr k \<le> 0xFFF"
      using less.prems(3) by simp
    obtain dv' where w: "writeABMLoop dv1 abmArr (int n) (i + 2) = (None, dv')"
      and l': "length dv' = length dv1"
      and f': "\<And>j. j < abmDiskOffset + ((i + 2) div 2) * 3 \<or> abmDiskOffset + ((n + 1) div 2) * 3 \<le> j
                 \<Longrightarrow> dv' ! j = dv1 ! j"
      and e': "\<And>k. i + 2 \<le> k \<Longrightarrow> k < n \<Longrightarrow> abmEntryOnDisk dv' k = abmValue abmArr k"
      using less.hyps[OF d ev2 b2 p3] by blast
    have nxt: "abmDiskOffset + ((i + 2) div 2) * 3 = ?at + 3" by simp
    have endle: "?at + 3 \<le> abmDiskOffset + ((n + 1) div 2) * 3"
      using triplet_fits[OF True, of "abmDiskOffset + ((n + 1) div 2) * 3"] by simp
    have frame: "\<forall>j. j < ?at \<or> abmDiskOffset + ((n + 1) div 2) * 3 \<le> j \<longrightarrow> dv' ! j = dv ! j"
    proof (intro allI impI)
      fix j assume j: "j < ?at \<or> abmDiskOffset + ((n + 1) div 2) * 3 \<le> j"
      then have "dv' ! j = dv1 ! j" using f'[of j] nxt by auto
      moreover have "dv1 ! j = dv ! j" using j f1[of j] endle by auto
      ultimately show "dv' ! j = dv ! j" by simp
    qed
    have keep: "\<And>k. k div 2 = i div 2 \<Longrightarrow> abmEntryOnDisk dv' k = abmEntryOnDisk dv1 k"
    proof (rule abmEntryOnDisk_cong)
      fix k j assume "k div 2 = i div 2" "j < abmDiskOffset + k div 2 * 3 + 3"
      then show "dv' ! j = dv1 ! j" using f'[of j] nxt by simp
    qed
    have ents: "\<forall>k. i \<le> k \<and> k < n \<longrightarrow> abmEntryOnDisk dv' k = abmValue abmArr k"
    proof (intro allI impI)
      fix k assume k: "i \<le> k \<and> k < n"
      consider "k = i" | "k = i + 1" | "i + 2 \<le> k" using k by linarith
      then show "abmEntryOnDisk dv' k = abmValue abmArr k"
      proof cases
        case 1
        then show ?thesis using keep[of i] e1 by simp
      next
        case 2
        have "(i + 1) div 2 = i div 2" using less.prems(1) by presburger
        then show ?thesis using keep[of "i + 1"] e2 k 2 by simp
      next
        case 3
        then show ?thesis using e' k by simp
      qed
    qed
    show ?thesis using s w l' l1 frame ents by simp
  qed
qed

lemma parseABMLoop_all:
  assumes "abmDiskOffset + ((n + 1) div 2) * 3 \<le> length dv"
  shows "parseABMLoop dv n i m =
           Inr (\<lambda>k. if i \<le> k \<and> k < n then Some (abmEntryOnDisk dv k) else m k)"
proof (induction "n - i" arbitrary: i m rule: less_induct)
  case less
  show ?case
  proof (cases "i < n")
    case False
    then have "(\<lambda>k. if i \<le> k \<and> k < n then Some (abmEntryOnDisk dv k) else m k) = m"
      by (auto simp: fun_eq_iff)
    then show ?thesis using False by (subst parseABMLoop.simps) simp
  next
    case True
    have fit: "abmDiskOffset + (i div 2) * 3 + 3 \<le> length dv" using triplet_fits[OF True assms] .
    have d: "n - (i + 1) < n - i" using True by simp
    have "parseABMLoop dv n i m = parseABMLoop dv n (i + 1) (m(i \<mapsto> abmEntryOnDisk dv i))"
      using True fit
      by (subst parseABMLoop.simps) (simp add: Let_def readUint8_def abmEntryOnDisk_def)
    also have "\<dots> = Inr (\<lambda>k. if i + 1 \<le> k \<and> k < n then Some (abmEntryOnDisk dv k)
                               else (m(i \<mapsto> abmEntryOnDisk dv i)) k)"
      by (rule less[OF d])
    also have "(\<lambda>k. if i + 1 \<le> k \<and> k < n then Some (abmEntryOnDisk dv k)
                               else (m(i \<mapsto> abmEntryOnDisk dv i)) k)
               = (\<lambda>k. if i \<le> k \<and> k < n then Some (abmEntryOnDisk dv k) else m k)"
      using True by (auto simp: fun_eq_iff)
    finally show ?thesis .
  qed
qed

subsection \<open>_initializeFileDirectoryArea\<close>

function initializeFileDirectoryLoop :: "byte list \<Rightarrow> nat \<Rightarrow> nat \<Rightarrow> nat \<Rightarrow> byte list" where
  "initializeFileDirectoryLoop dataView dirStartOffset dirTotalBytes offset =
     (if offset < dirTotalBytes then
        if dirStartOffset + offset < length dataView then
          initializeFileDirectoryLoop (dataView[dirStartOffset + offset := 0])
            dirStartOffset dirTotalBytes (offset + 2)
        else initializeFileDirectoryLoop dataView dirStartOffset dirTotalBytes (offset + 2)
      else dataView)"
  by pat_completeness auto
termination
  by (relation "measure (\<lambda>(dataView, dirStartOffset, dirTotalBytes, offset). dirTotalBytes - offset)")
     auto

declare initializeFileDirectoryLoop.simps [simp del]

definition initializeFileDirectoryArea :: "byte list \<Rightarrow> MFSVolumeInfo \<Rightarrow> byte list" where
  "initializeFileDirectoryArea dataView vi =
     (let dirStartOffset = dirStartBlock vi * SECTOR_SIZE;
          dirTotalBytes = dirLengthBlocks vi * SECTOR_SIZE
      in initializeFileDirectoryLoop dataView dirStartOffset dirTotalBytes 0)"

subsection \<open>_parseFileDirectory\<close>

text \<open>
  The body of the loop for an entry in use: the reads of the fields in the order of the
  source, the first of them the Pascal-string read whose result the next statement
  overwrites. \<^verbatim>\<open>flPosRaw >> 16\<close> is a signed 32-bit shift.
\<close>

definition readFileEntry :: "byte list \<Rightarrow> nat \<Rightarrow> nat \<Rightarrow> MFSError + MFSFileEntry" where
  "readFileEntry dataView entryStartDiskOffset flFlags =
     bindE (readUint8 dataView (entryStartDiskOffset + 1)) (\<lambda>vers.
     bindE (readPascalString dataView (entryStartDiskOffset + 2 - 1) 4) (\<lambda>_.
     bindE (readChars dataView (entryStartDiskOffset + 2) 4) (\<lambda>typ.
     bindE (readChars dataView (entryStartDiskOffset + 6) 4) (\<lambda>cr.
     bindE (readUint16BE dataView (entryStartDiskOffset + 10)) (\<lambda>fndrFlags.
     bindE (readUint32BE dataView (entryStartDiskOffset + 12)) (\<lambda>flPosRaw.
     bindE (readUint16BE dataView (entryStartDiskOffset + 16)) (\<lambda>fldrNum.
     bindE (readUint32BE dataView (entryStartDiskOffset + 18)) (\<lambda>fNum.
     bindE (readUint16BE dataView (entryStartDiskOffset + 22)) (\<lambda>dfStBlk.
     bindE (readUint32BE dataView (entryStartDiskOffset + 24)) (\<lambda>dfLogLen.
     bindE (readUint32BE dataView (entryStartDiskOffset + 28)) (\<lambda>dfAllocLen.
     bindE (readUint16BE dataView (entryStartDiskOffset + 32)) (\<lambda>rfStBlk.
     bindE (readUint32BE dataView (entryStartDiskOffset + 34)) (\<lambda>rfLogLen.
     bindE (readUint32BE dataView (entryStartDiskOffset + 38)) (\<lambda>rfAllocLen.
     bindE (readUint32BE dataView (entryStartDiskOffset + 42)) (\<lambda>crDat.
     bindE (readUint32BE dataView (entryStartDiskOffset + 46)) (\<lambda>mdDat.
     bindE (readUint8 dataView (entryStartDiskOffset + 50)) (\<lambda>flNamLen.
     bindE (readChars dataView (entryStartDiskOffset + 51) flNamLen) (\<lambda>name.
       Inr \<lparr>diskOffset = entryStartDiskOffset,
            flags = flFlags,
            version = vers,
            fileType = typ,
            creator = cr,
            finderFlags = int fndrFlags,
            iconPosition =
              (if flPosRaw div 65536 < 32768 then int (flPosRaw div 65536)
               else int (flPosRaw div 65536) - 65536,
               int (flPosRaw mod 65536)),
            folderNum = int fldrNum,
            fileNum = fNum,
            dataForkStartBlock = dfStBlk,
            dataForkLogicalLength = dfLogLen,
            dataForkAllocLength = dfAllocLen,
            resourceForkStartBlock = rfStBlk,
            resourceForkLogicalLength = rfLogLen,
            resourceForkAllocLength = rfAllocLen,
            creationDate = mfsTimestampToDate crDat,
            modificationDate = mfsTimestampToDate mdDat,
            filename = name,
            entryLength =
              (if (51 + flNamLen) mod 2 \<noteq> 0 then 51 + flNamLen + 1 else 51 + flNamLen)\<rparr>
     ))))))))))))))))))"

lemma readFileEntry_length:
  "readFileEntry dataView off fl = Inr entry \<Longrightarrow> 51 \<le> entryLength entry"
  by (auto simp: readFileEntry_def bindE_def split: sum.splits)

text \<open>
  The \<^verbatim>\<open>while (currentOffsetInDir < dirTotalBytes)\<close> loop. Both \<^verbatim>\<open>break\<close>s leave it with the
  entries collected so far.
\<close>

function parseFileDirectoryLoop ::
    "byte list \<Rightarrow> nat \<Rightarrow> nat \<Rightarrow> nat \<Rightarrow> MFSFileEntry list \<Rightarrow> MFSError + MFSFileEntry list" where
  "parseFileDirectoryLoop dataView dirStartOffset dirTotalBytes currentOffsetInDir entries =
     (if currentOffsetInDir < dirTotalBytes then
        let entryStartDiskOffset = dirStartOffset + currentOffsetInDir
        in if entryStartDiskOffset \<ge> length dataView then Inr entries
           else
             bindE (readUint8 dataView entryStartDiskOffset) (\<lambda>flFlags.
               if flFlags AND 0x80 = 0 then Inr entries
               else
                 bindE (readFileEntry dataView entryStartDiskOffset flFlags) (\<lambda>entry.
                   parseFileDirectoryLoop dataView dirStartOffset dirTotalBytes
                     (currentOffsetInDir + entryLength entry) (entries @ [entry])))
      else Inr entries)"
  by pat_completeness auto
termination
proof (relation "measure (\<lambda>(dataView, dirStartOffset, dirTotalBytes, currentOffsetInDir, entries).
                            dirTotalBytes - currentOffsetInDir)", goal_cases)
  case 1
  then show ?case by simp
next
  case (2 dataView dirStartOffset dirTotalBytes currentOffsetInDir entries x xa xb)
  then show ?case using readFileEntry_length[of dataView _ _ xb] by fastforce
qed

declare parseFileDirectoryLoop.simps [simp del]

definition parseFileDirectory :: "byte list \<Rightarrow> MFSVolumeInfo \<Rightarrow> MFSError + MFSFileEntry list" where
  "parseFileDirectory dataView vi =
     (let dirStartOffset = dirStartBlock vi * SECTOR_SIZE;
          dirTotalBytes = dirLengthBlocks vi * SECTOR_SIZE
      in parseFileDirectoryLoop dataView dirStartOffset dirTotalBytes 0 [])"

subsection \<open>The constructor\<close>

definition loadExistingImage :: "byte list \<Rightarrow> MFSError + MFSVolume" where
  "loadExistingImage arrayBuffer =
     bindE (parseMDB arrayBuffer) (\<lambda>(vi, abmArr).
       if signature vi \<noteq> MFS_SIGNATURE then Inl InvalidSignature
       else
         bindE (parseFileDirectory arrayBuffer vi) (\<lambda>entries.
           Inr \<lparr>imageBuffer = arrayBuffer, volumeInfo = vi, abm = abmArr,
                fileDirectory = entries\<rparr>))"

text \<open>
  \<^verbatim>\<open>_formatNewImage(sizeKB, volumeName)\<close>; \<open>now\<close> is the value of \<^verbatim>\<open>new Date()\<close>. The size in
  kilobytes is a natural number here. When \<^verbatim>\<open>_writeMDB\<close> is called, \<^verbatim>\<open>this.abm\<close> is still the
  empty array of the constructor.
\<close>

definition formatNewImage :: "nat \<Rightarrow> string \<Rightarrow> int \<Rightarrow> MFSError + MFSVolume" where
  "formatNewImage sizeKB volName now =
     (let totalSizeBytes = sizeKB * 1024
      in if totalSizeBytes mod SECTOR_SIZE \<noteq> 0 then Inl SizeNotSectorMultiple
         else
           let allocBlockSz = DEFAULT_ALLOC_BLOCK_SIZE_400K
           in if totalSizeBytes < BOOT_BLOCK_SECTORS * SECTOR_SIZE + 1024 + allocBlockSz
              then Inl ImageTooSmall
              else
                let buffer = replicate totalSizeBytes (0 :: byte);
                    dirStart = BOOT_BLOCK_SECTORS + 1024 div SECTOR_SIZE;
                    dirLength = 12;
                    allocStart = dirStart + dirLength;
                    totalSectors = totalSizeBytes div SECTOR_SIZE;
                    numSectorsForAllocBlocks = int totalSectors - int allocStart;
                    nmAlBlks = numSectorsForAllocBlocks div int (allocBlockSz div SECTOR_SIZE);
                    vi = \<lparr>signature = MFS_SIGNATURE,
                          vol_creationDate = Some now,
                          vol_modificationDate = Some now,
                          attributes = 0,
                          numFiles = 0,
                          dirStartBlock = dirStart,
                          dirLengthBlocks = dirLength,
                          numAllocBlocks = nmAlBlks,
                          allocBlockSize = allocBlockSz,
                          clumpSize = max (allocBlockSz * 8) allocBlockSz,
                          allocBlockStartSector = allocStart,
                          nextFileNum = 1,
                          freeAllocBlocks = nmAlBlks,
                          volumeName = volName\<rparr>;
                    vol0 = \<lparr>imageBuffer = buffer, volumeInfo = vi, abm = Map.empty,
                            fileDirectory = []\<rparr>
                in case writeMDB vol0 of
                     (Some e, vol1) \<Rightarrow> Inl e
                   | (None, vol1) \<Rightarrow>
                       let buffer2 = initializeFileDirectoryArea (imageBuffer vol1) (volumeInfo vol1)
                       in bindE (parseMDB buffer2) (\<lambda>(vi2, abmArr).
                          bindE (parseFileDirectory buffer2 vi2) (\<lambda>entries.
                            Inr \<lparr>imageBuffer = buffer2, volumeInfo = vi2, abm = abmArr,
                                 fileDirectory = entries\<rparr>)))"

text \<open>
  \<^verbatim>\<open>new MFSVolume({create: true, sizeKB, volumeName})\<close>: an option that is absent, 0 or the
  empty string takes its default.
\<close>

definition createVolume :: "nat option \<Rightarrow> string option \<Rightarrow> int \<Rightarrow> MFSError + MFSVolume" where
  "createVolume sizeKBOpt volumeNameOpt now =
     (let sizeKB = (case sizeKBOpt of None \<Rightarrow> 400 | Some k \<Rightarrow> if k = 0 then 400 else k);
          volName = (case volumeNameOpt of None \<Rightarrow> ''Untitled''
                     | Some s \<Rightarrow> if s = [] then ''Untitled'' else s)
      in formatNewImage sizeKB volName now)"

subsection \<open>listFiles\<close>

record FileListing =
  l_filename :: string
  l_type :: string
  l_creator :: string
  l_dataForkSize :: nat
  l_resourceForkSize :: nat
  l_creationDate :: Date
  l_modificationDate :: Date
  l_fileNum :: nat
  l_folderNum :: int

definition listFiles :: "MFSVolume \<Rightarrow> FileListing list" where
  "listFiles vol =
     map (\<lambda>entry. \<lparr>l_filename = filename entry,
                    l_type = fileType entry,
                    l_creator = creator entry,
                    l_dataForkSize = dataForkLogicalLength entry,
                    l_resourceForkSize = resourceForkLogicalLength entry,
                    l_creationDate = creationDate entry,
                    l_modificationDate = modificationDate entry,
                    l_fileNum = fileNum entry,
                    l_folderNum = folderNum entry\<rparr>)
         (fileDirectory vol)"

subsection \<open>Facts about buffer writes\<close>

text \<open>The bytes a write touches: from \<open>writeStart\<close> up to, not including, \<open>writeEnd\<close>.\<close>

fun writeStart :: "WriteOp \<Rightarrow> nat" where
  "writeStart (SetUint8 offset v) = offset"
| "writeStart (SetUint16BE offset v) = offset"
| "writeStart (SetUint32BE offset v) = offset"

fun writeEnd :: "WriteOp \<Rightarrow> nat" where
  "writeEnd (SetUint8 offset v) = offset + 1"
| "writeEnd (SetUint16BE offset v) = offset + 2"
| "writeEnd (SetUint32BE offset v) = offset + 4"

lemma applyWrite_ok:
  "writeEnd w \<le> length dv \<Longrightarrow> \<exists>dv'. applyWrite dv w = Inr dv'"
  by (cases w) (simp_all add: writeUint8_def writeUint16BE_def writeUint32BE_def)

lemma applyWrite_fail:
  "\<not> writeEnd w \<le> length dv \<Longrightarrow> applyWrite dv w = Inl RangeError"
  by (cases w) (simp_all add: writeUint8_def writeUint16BE_def writeUint32BE_def)

lemma applyWrite_length:
  "applyWrite dv w = Inr dv' \<Longrightarrow> length dv' = length dv"
  by (cases w) (auto simp: writeUint8_def writeUint16BE_def writeUint32BE_def split: if_splits)

lemma applyWrite_frame:
  "applyWrite dv w = Inr dv' \<Longrightarrow> j < writeStart w \<or> writeEnd w \<le> j \<Longrightarrow> dv' ! j = dv ! j"
  by (cases w) (auto simp: writeUint8_def writeUint16BE_def writeUint32BE_def split: if_splits)

lemma applyWrites_length: "length (snd (applyWrites dv ws)) = length dv"
  by (induction ws arbitrary: dv) (auto split: sum.splits dest: applyWrite_length)

lemma applyWrites_frame:
  "(\<And>w. w \<in> set ws \<Longrightarrow> j < writeStart w \<or> writeEnd w \<le> j)
   \<Longrightarrow> snd (applyWrites dv ws) ! j = dv ! j"
proof (induction ws arbitrary: dv)
  case Nil
  then show ?case by simp
next
  case (Cons w ws)
  show ?case
  proof (cases "applyWrite dv w")
    case (Inl e)
    then show ?thesis by simp
  next
    case (Inr dv')
    have "snd (applyWrites dv' ws) ! j = dv' ! j" using Cons by simp
    moreover have "dv' ! j = dv ! j" using applyWrite_frame[OF Inr] Cons.prems by simp
    ultimately show ?thesis using Inr by simp
  qed
qed

lemma applyWrites_ok:
  "(\<And>w. w \<in> set ws \<Longrightarrow> writeEnd w \<le> length dv) \<Longrightarrow> fst (applyWrites dv ws) = None"
proof (induction ws arbitrary: dv)
  case Nil
  then show ?case by simp
next
  case (Cons w ws)
  obtain dv' where w: "applyWrite dv w = Inr dv'" using applyWrite_ok[of w dv] Cons.prems by auto
  have "length dv' = length dv" using applyWrite_length[OF w] .
  then have "fst (applyWrites dv' ws) = None" using Cons by simp
  then show ?case using w by simp
qed

lemma applyWrites_append:
  "applyWrites dv (ws1 @ ws2) =
     (case applyWrites dv ws1 of
        (None, dv1) \<Rightarrow> applyWrites dv1 ws2
      | (Some e, dv1) \<Rightarrow> (Some e, dv1))"
  by (induction ws1 arbitrary: dv) (auto split: sum.splits)

subsection \<open>Characters and timestamps read back\<close>

lemma fromCharCode_charCode:
  "fromCharCode (unat (word_of_int (charCode c) :: byte)) = c"
proof -
  have "charCode c = int (of_char c)" by (simp add: charCode_def of_nat_of_char)
  then have "unat (word_of_int (charCode c) :: byte) = of_char c"
    by (simp add: unat_of_nat)
  then show ?thesis by (simp add: fromCharCode_def)
qed

lemma unat_byte_of_int_mod: "unat (word_of_int v :: byte) = nat (v mod 256)"
  by (simp add: unsigned_of_int take_bit_eq_mod nat_take_bit_eq)

lemma int_unat_byte: "int (unat (word_of_int v :: byte)) = v mod 256"
  by (simp add: unat_byte_of_int_mod)

lemma u16_value:
  "unat (word_of_int (v div 256) :: byte) * 256 + unat (word_of_int v :: byte) = nat (v mod 65536)"
proof -
  have "v mod 65536 = 256 * (v div 256 mod 256) + v mod 256"
    using zmod_zmult2_eq[of 256 v 256] by simp
  then have "int (unat (word_of_int (v div 256) :: byte) * 256 + unat (word_of_int v :: byte))
               = v mod 65536"
    by (simp only: of_nat_add of_nat_mult int_unat_byte of_nat_numeral mult.commute)
  then show ?thesis by linarith
qed

lemma u32_value:
  "unat (word_of_int (v div 16777216) :: byte) * 16777216
   + unat (word_of_int (v div 65536) :: byte) * 65536
   + unat (word_of_int (v div 256) :: byte) * 256
   + unat (word_of_int v :: byte) = nat (v mod 4294967296)"
proof -
  have 1: "v mod 4294967296 = 65536 * (v div 65536 mod 65536) + v mod 65536"
    using zmod_zmult2_eq[of 65536 v 65536] by simp
  have 2: "v mod 65536 = 256 * (v div 256 mod 256) + v mod 256"
    using zmod_zmult2_eq[of 256 v 256] by simp
  have 3: "v div 65536 mod 65536 = 256 * (v div 65536 div 256 mod 256) + v div 65536 mod 256"
    using zmod_zmult2_eq[of 256 "v div 65536" 256] by simp
  have 4: "v div 65536 div 256 = v div 16777216"
    using zdiv_zmult2_eq[of 256 v 65536] by simp
  have "v mod 4294967296 = 16777216 * (v div 16777216 mod 256) + 65536 * (v div 65536 mod 256)
          + 256 * (v div 256 mod 256) + v mod 256"
    unfolding 1 2 3 4 by simp
  then have "int (unat (word_of_int (v div 16777216) :: byte) * 16777216
   + unat (word_of_int (v div 65536) :: byte) * 65536
   + unat (word_of_int (v div 256) :: byte) * 256
   + unat (word_of_int v :: byte)) = v mod 4294967296"
    by (simp only: of_nat_add of_nat_mult int_unat_byte of_nat_numeral mult.commute)
  then show ?thesis by linarith
qed

subsection \<open>Pascal strings in the buffer\<close>

lemma applyWrites_bytes:
  assumes "base + b \<le> length dv"
  shows "fst (applyWrites dv (map (\<lambda>i. SetUint8 (base + i) (f i)) [a..<b])) = None
       \<and> (\<forall>j. snd (applyWrites dv (map (\<lambda>i. SetUint8 (base + i) (f i)) [a..<b])) ! j
              = (if base + a \<le> j \<and> j < base + b then word_of_int (f (j - base)) else dv ! j))"
  using assms
proof (induction b)
  case 0
  then show ?case by auto
next
  case (Suc b)
  show ?case
  proof (cases "a \<le> b")
    case False
    then show ?thesis by auto
  next
    case True
    let ?ws = "map (\<lambda>i. SetUint8 (base + i) (f i)) [a..<b]"
    have ih: "fst (applyWrites dv ?ws) = None"
      "\<And>j. snd (applyWrites dv ?ws) ! j
              = (if base + a \<le> j \<and> j < base + b then word_of_int (f (j - base)) else dv ! j)"
      using Suc by simp_all
    obtain dv1 where dv1: "applyWrites dv ?ws = (None, dv1)"
      using ih(1) by (cases "applyWrites dv ?ws") auto
    have l1: "length dv1 = length dv" using applyWrites_length[of dv ?ws] dv1 by simp
    have n1: "\<And>j. dv1 ! j = (if base + a \<le> j \<and> j < base + b then word_of_int (f (j - base)) else dv ! j)"
      using ih(2) dv1 by simp
    have e: "applyWrites dv (map (\<lambda>i. SetUint8 (base + i) (f i)) [a..<Suc b])
               = (None, dv1[base + b := word_of_int (f b)])"
      using True dv1 l1 Suc.prems by (simp add: applyWrites_append writeUint8_def)
    show ?thesis
      unfolding e using n1 l1 Suc.prems True by (auto simp: nth_list_update)
  qed
qed

lemma readChars_eq:
  "off + n \<le> length dv \<Longrightarrow>
   readChars dv off n = Inr (map (\<lambda>i. fromCharCode (unat (dv ! (off + i)))) [0..<n])"
proof (induction n arbitrary: off)
  case 0
  then show ?case by simp
next
  case (Suc n)
  have "readChars dv (off + 1) n = Inr (map (\<lambda>i. fromCharCode (unat (dv ! (off + 1 + i)))) [0..<n])"
    using Suc by simp
  moreover have "[0..<Suc n] = 0 # map Suc [0..<n]"
    by (simp only: upt_conv_Cons[OF zero_less_Suc] map_Suc_upt)
  ultimately show ?case
    using Suc.prems by (simp add: readUint8_def comp_def del: upt_Suc)
qed

lemma writePascalString_range:
  "w \<in> set (writePascalString off str fl) \<Longrightarrow> 0 < fl \<Longrightarrow> off \<le> writeStart w \<and> writeEnd w \<le> off + fl"
  by (auto simp: writePascalString_def Let_def)

lemma writePascalString_roundtrip:
  assumes "off + fl \<le> length dv" "0 < fl" "fl \<le> 256"
  shows "fst (applyWrites dv (writePascalString off str fl)) = None"
    and "readPascalString (snd (applyWrites dv (writePascalString off str fl))) off (fl - 1)
           = Inr (take (fl - 1) str)"
proof -
  let ?len = "min (length str) (fl - 1)"
  let ?dv0 = "dv[off := word_of_int (int ?len)]"
  let ?cs = "map (\<lambda>i. SetUint8 (off + 1 + i) (charCode (str ! i))) [0..<?len]"
  let ?zs = "map (\<lambda>i. SetUint8 (off + 1 + i) 0) [?len..<fl - 1]"
  have l0: "length ?dv0 = length dv" by simp
  have c: "fst (applyWrites ?dv0 ?cs) = None"
    "\<And>j. snd (applyWrites ?dv0 ?cs) ! j
       = (if off + 1 + 0 \<le> j \<and> j < off + 1 + ?len then word_of_int (charCode (str ! (j - (off + 1))))
          else ?dv0 ! j)"
    using applyWrites_bytes[of "off + 1" ?len ?dv0 "\<lambda>i. charCode (str ! i)" 0] assms by simp_all
  obtain dv1 where dv1: "applyWrites ?dv0 ?cs = (None, dv1)"
    using c(1) by (cases "applyWrites ?dv0 ?cs") auto
  have l1: "length dv1 = length dv" using applyWrites_length[of ?dv0 ?cs] dv1 by simp
  have z: "fst (applyWrites dv1 ?zs) = None"
    "\<And>j. snd (applyWrites dv1 ?zs) ! j
       = (if off + 1 + ?len \<le> j \<and> j < off + 1 + (fl - 1) then word_of_int 0 else dv1 ! j)"
    using applyWrites_bytes[of "off + 1" "fl - 1" dv1 "\<lambda>i. 0" ?len] assms l1 by simp_all
  obtain dv2 where dv2: "applyWrites dv1 ?zs = (None, dv2)"
    using z(1) by (cases "applyWrites dv1 ?zs") auto
  have all: "applyWrites dv (writePascalString off str fl) = (None, dv2)"
    using assms dv1 dv2
    by (simp add: writePascalString_def Let_def writeUint8_def applyWrites_append)
  show "fst (applyWrites dv (writePascalString off str fl)) = None" using all by simp
  have l2: "length dv2 = length dv" using applyWrites_length[of dv1 ?zs] dv2 l1 by simp
  have lenb: "dv2 ! off = word_of_int (int ?len)"
    using z(2)[of off] c(2)[of off] dv1 dv2 assms by simp
  have chars: "\<And>i. i < ?len \<Longrightarrow> dv2 ! (off + 1 + i) = word_of_int (charCode (str ! i))"
  proof -
    fix i assume i: "i < ?len"
    have ni: "\<not> (off + 1 + ?len \<le> off + 1 + i \<and> off + 1 + i < off + 1 + (fl - 1))"
      using i by (simp add: min_def split: if_splits)
    have "dv2 ! (off + 1 + i) = dv1 ! (off + 1 + i)"
      using z(2)[of "off + 1 + i"] dv2 by (simp only: ni if_False snd_conv)
    also have "\<dots> = word_of_int (charCode (str ! i))"
      using c(2)[of "off + 1 + i"] dv1 i by simp
    finally show "dv2 ! (off + 1 + i) = word_of_int (charCode (str ! i))" .
  qed
  have "?len < 256" using assms by simp
  then have rl: "readUint8 dv2 off = Inr ?len"
    using assms l2 lenb by (simp add: readUint8_def unat_of_nat)
  have "readChars dv2 (off + 1) ?len
          = Inr (map (\<lambda>i. fromCharCode (unat (dv2 ! (off + 1 + i)))) [0..<?len])"
    using assms l2 by (intro readChars_eq) simp
  also have "map (\<lambda>i. fromCharCode (unat (dv2 ! (off + 1 + i)))) [0..<?len] = take (fl - 1) str"
  proof (rule nth_equalityI)
    show "length (map (\<lambda>i. fromCharCode (unat (dv2 ! (off + 1 + i)))) [0..<?len]) = length (take (fl - 1) str)"
      by simp
  next
    fix i assume "i < length (map (\<lambda>i. fromCharCode (unat (dv2 ! (off + 1 + i)))) [0..<?len])"
    then have i: "i < ?len" by simp
    have "fromCharCode (unat (dv2 ! (off + 1 + i))) = str ! i"
      by (simp only: chars[OF i] fromCharCode_charCode)
    then show "map (\<lambda>i. fromCharCode (unat (dv2 ! (off + 1 + i)))) [0..<?len] ! i = take (fl - 1) str ! i"
      using i by simp
  qed
  finally show "readPascalString (snd (applyWrites dv (writePascalString off str fl))) off (fl - 1)
           = Inr (take (fl - 1) str)"
    using all rl by (simp add: readPascalString_def Let_def min_absorb1)
qed

subsection \<open>The volume information in the buffer\<close>

lemma mdbOffset_eq: "mdbOffset = 1024"
  by (simp add: mdbOffset_def MDB_START_SECTOR_def SECTOR_SIZE_def)

lemma abmDiskOffset_eq: "abmDiskOffset = 1088"
  by (simp add: abmDiskOffset_def abmOffsetInMDB_def mdbOffset_eq)

text \<open>What \<^verbatim>\<open>_parseMDB\<close> reads back of a volume information that \<^verbatim>\<open>_writeMDB\<close> wrote.\<close>

definition volumeInfoAsStored :: "MFSVolumeInfo \<Rightarrow> MFSVolumeInfo" where
  "volumeInfoAsStored vi =
     \<lparr>signature = nat (int (signature vi) mod 65536),
      vol_creationDate =
        mfsTimestampToDate (nat (dateToMFSTimestamp (vol_creationDate vi) mod 4294967296)),
      vol_modificationDate =
        mfsTimestampToDate (nat (dateToMFSTimestamp (vol_modificationDate vi) mod 4294967296)),
      attributes = nat (int (attributes vi) mod 65536),
      numFiles = int (nat (numFiles vi mod 65536)),
      dirStartBlock = nat (int (dirStartBlock vi) mod 65536),
      dirLengthBlocks = nat (int (dirLengthBlocks vi) mod 65536),
      numAllocBlocks = int (nat (numAllocBlocks vi mod 65536)),
      allocBlockSize = nat (int (allocBlockSize vi) mod 4294967296),
      clumpSize = nat (int (clumpSize vi) mod 4294967296),
      allocBlockStartSector = nat (int (allocBlockStartSector vi) mod 65536),
      nextFileNum = nat (int (nextFileNum vi) mod 4294967296),
      freeAllocBlocks = int (nat (freeAllocBlocks vi mod 65536)),
      volumeName = take 27 (volumeName vi)\<rparr>"

lemma mdbHeaderWrites_range:
  "w \<in> set (mdbHeaderWrites vi) \<Longrightarrow> mdbOffset \<le> writeStart w \<and> writeEnd w \<le> mdbOffset + 64"
  using writePascalString_range[of w "mdbOffset + 36" "volumeName vi" 28]
  by (auto simp: mdbHeaderWrites_def)

lemma mdbHeader_ok:
  assumes "mdbOffset + 64 \<le> length dv"
  shows "fst (applyWrites dv (mdbHeaderWrites vi)) = None"
  using assms mdbHeaderWrites_range[of _ vi] by (intro applyWrites_ok) fastforce

lemma mdbHeader_frame:
  "j < mdbOffset \<or> mdbOffset + 64 \<le> j \<Longrightarrow> snd (applyWrites dv (mdbHeaderWrites vi)) ! j = dv ! j"
  using mdbHeaderWrites_range[of _ vi] by (intro applyWrites_frame) fastforce

lemma parseMDB_header:
  assumes len: "mdbOffset + 64 \<le> length dv"
    and hdr: "hdr = snd (applyWrites dv (mdbHeaderWrites vi))"
  shows "parseMDB hdr =
           bindE (parseABMLoop hdr (nat (numAllocBlocks vi mod 65536)) 0 Map.empty)
             (\<lambda>abmArr. Inr (volumeInfoAsStored vi, abmArr))"
proof -
  let ?fx = "[SetUint16BE (mdbOffset + 0) (int (signature vi)),
      SetUint32BE (mdbOffset + 2) (dateToMFSTimestamp (vol_creationDate vi)),
      SetUint32BE (mdbOffset + 6) (dateToMFSTimestamp (vol_modificationDate vi)),
      SetUint16BE (mdbOffset + 10) (int (attributes vi)),
      SetUint16BE (mdbOffset + 12) (numFiles vi),
      SetUint16BE (mdbOffset + 14) (int (dirStartBlock vi)),
      SetUint16BE (mdbOffset + 16) (int (dirLengthBlocks vi)),
      SetUint16BE (mdbOffset + 18) (numAllocBlocks vi),
      SetUint32BE (mdbOffset + 20) (int (allocBlockSize vi)),
      SetUint32BE (mdbOffset + 24) (int (clumpSize vi)),
      SetUint16BE (mdbOffset + 28) (int (allocBlockStartSector vi)),
      SetUint32BE (mdbOffset + 30) (int (nextFileNum vi)),
      SetUint16BE (mdbOffset + 34) (freeAllocBlocks vi)]"
  let ?ps = "writePascalString (mdbOffset + 36) (volumeName vi) 28"
  have split: "mdbHeaderWrites vi = ?fx @ ?ps" by (simp add: mdbHeaderWrites_def)
  obtain dvf where dvf: "applyWrites dv ?fx = (None, dvf)"
    using len by (simp add: mdbOffset_eq writeUint16BE_def writeUint32BE_def)
  have lf: "length dvf = length dv" using applyWrites_length[of dv ?fx] dvf by simp
  have h: "hdr = snd (applyWrites dvf ?ps)"
    using hdr by (simp only: split applyWrites_append dvf prod.case option.case)
  have lh: "length hdr = length dv" using h lf applyWrites_length[of dvf ?ps] by simp
  have low: "\<And>j. j < mdbOffset + 36 \<Longrightarrow> hdr ! j = dvf ! j"
    unfolding h using writePascalString_range[of _ "mdbOffset + 36" "volumeName vi" 28]
    by (intro applyWrites_frame) fastforce
  have name: "readPascalString hdr (mdbOffset + 36) 27 = Inr (take 27 (volumeName vi))"
    unfolding h using writePascalString_roundtrip(2)[of "mdbOffset + 36" 28 dvf "volumeName vi"] len lf
    by simp
  have r16: "\<And>off v. off + 2 \<le> mdbOffset + 36 \<Longrightarrow>
               dvf ! off = word_of_int (v div 256) \<Longrightarrow> dvf ! (off + 1) = word_of_int v \<Longrightarrow>
               readUint16BE hdr off = Inr (nat (v mod 65536))"
    using len lh by (simp add: readUint16BE_def low u16_value)
  have r32: "\<And>off v. off + 4 \<le> mdbOffset + 36 \<Longrightarrow>
               dvf ! off = word_of_int (v div 16777216) \<Longrightarrow>
               dvf ! (off + 1) = word_of_int (v div 65536) \<Longrightarrow>
               dvf ! (off + 2) = word_of_int (v div 256) \<Longrightarrow> dvf ! (off + 3) = word_of_int v \<Longrightarrow>
               readUint32BE hdr off = Inr (nat (v mod 4294967296))"
    using len lh by (simp add: readUint32BE_def low u32_value)
  have dvf_eq: "dvf = snd (applyWrites dv ?fx)" using dvf by simp
  note ev = dvf_eq mdbOffset_eq writeUint16BE_def writeUint32BE_def
  have f1: "readUint16BE hdr (mdbOffset + 0) = Inr (nat (int (signature vi) mod 65536))"
    using len by (intro r16) (simp_all add: ev)
  have f2: "readUint32BE hdr (mdbOffset + 2)
              = Inr (nat (dateToMFSTimestamp (vol_creationDate vi) mod 4294967296))"
    using len by (intro r32) (simp_all add: ev)
  have f3: "readUint32BE hdr (mdbOffset + 6)
              = Inr (nat (dateToMFSTimestamp (vol_modificationDate vi) mod 4294967296))"
    using len by (intro r32) (simp_all add: ev)
  have f4: "readUint16BE hdr (mdbOffset + 10) = Inr (nat (int (attributes vi) mod 65536))"
    using len by (intro r16) (simp_all add: ev)
  have f5: "readUint16BE hdr (mdbOffset + 12) = Inr (nat (numFiles vi mod 65536))"
    using len by (intro r16) (simp_all add: ev)
  have f6: "readUint16BE hdr (mdbOffset + 14) = Inr (nat (int (dirStartBlock vi) mod 65536))"
    using len by (intro r16) (simp_all add: ev)
  have f7: "readUint16BE hdr (mdbOffset + 16) = Inr (nat (int (dirLengthBlocks vi) mod 65536))"
    using len by (intro r16) (simp_all add: ev)
  have f8: "readUint16BE hdr (mdbOffset + 18) = Inr (nat (numAllocBlocks vi mod 65536))"
    using len by (intro r16) (simp_all add: ev)
  have f9: "readUint32BE hdr (mdbOffset + 20) = Inr (nat (int (allocBlockSize vi) mod 4294967296))"
    using len by (intro r32) (simp_all add: ev)
  have f10: "readUint32BE hdr (mdbOffset + 24) = Inr (nat (int (clumpSize vi) mod 4294967296))"
    using len by (intro r32) (simp_all add: ev)
  have f11: "readUint16BE hdr (mdbOffset + 28) = Inr (nat (int (allocBlockStartSector vi) mod 65536))"
    using len by (intro r16) (simp_all add: ev)
  have f12: "readUint32BE hdr (mdbOffset + 30) = Inr (nat (int (nextFileNum vi) mod 4294967296))"
    using len by (intro r32) (simp_all add: ev)
  have f13: "readUint16BE hdr (mdbOffset + 34) = Inr (nat (freeAllocBlocks vi mod 65536))"
    using len by (intro r16) (simp_all add: ev)
  show ?thesis
    unfolding parseMDB_def f1 f2 f3 f4 f5 f6 f7 f8 f9 f10 f11 f12 f13 name
    by (simp add: volumeInfoAsStored_def)
qed

subsection \<open>Formatting a blank image\<close>

lemma pack_zero:
  "packABMEntryToTriplet 0 0 0 0 isEven = Inr (0, 0, 0)"
  by (simp add: packABMEntryToTriplet_def)

lemma applyWrites_zero_triplet:
  assumes "\<And>j. at \<le> j \<Longrightarrow> j < length dv \<Longrightarrow> dv ! j = 0"
  shows "snd (applyWrites dv [SetUint8 at 0, SetUint8 (at + 1) 0, SetUint8 (at + 2) 0]) = dv"
proof -
  have "\<And>k. at \<le> k \<Longrightarrow> k < length dv \<Longrightarrow> dv[k := 0] = dv"
    using assms by (metis list_update_id)
  then show ?thesis
    by (simp add: writeUint8_def)
qed

lemma writeABMLoop_blank:
  assumes "\<And>j. abmDiskOffset \<le> j \<Longrightarrow> j < length dv \<Longrightarrow> dv ! j = 0"
  shows "snd (writeABMLoop dv Map.empty n i) = dv"
proof (induction "nat n - i" arbitrary: i rule: less_induct)
  case less
  show ?case
  proof (cases "int i < n")
    case False
    then show ?thesis by (simp add: writeABMLoop_done)
  next
    case True
    let ?at = "abmDiskOffset + (i div 2) * 3"
    have z: "\<And>j. ?at \<le> j \<Longrightarrow> j < length dv \<Longrightarrow> dv ! j = 0" using assms by simp
    have rd: "(if ?at + 2 < length dv
               then (unat (dv ! ?at), unat (dv ! (?at + 1)), unat (dv ! (?at + 2)))
               else (0, 0, 0)) = (0, 0, 0)"
      using z by simp
    have ws: "snd (applyWrites dv [SetUint8 ?at 0, SetUint8 (?at + 1) 0, SetUint8 (?at + 2) 0]) = dv"
      by (rule applyWrites_zero_triplet) (use z in simp)
    have d: "nat n - (i + 2) < nat n - i" using True by linarith
    have unf: "writeABMLoop dv Map.empty n i =
        (case applyWrites dv [SetUint8 ?at 0, SetUint8 (?at + 1) 0, SetUint8 (?at + 2) 0] of
           (None, dv') \<Rightarrow> writeABMLoop dv' Map.empty n (i + 2)
         | (Some e, dv') \<Rightarrow> (Some e, dv'))"
      apply (subst writeABMLoop.simps)
      apply (simp only: Let_def rd prod.case option.case pack_zero sum.case True if_True
               if_cancel of_nat_0)
      apply simp
      done
    show ?thesis
    proof (cases "applyWrites dv [SetUint8 ?at 0, SetUint8 (?at + 1) 0, SetUint8 (?at + 2) 0]")
      case (Pair e dv')
      then have dv': "dv' = dv" using ws by simp
      show ?thesis
        unfolding unf Pair dv' using less[OF d] by (cases e) simp_all
    qed
  qed
qed

lemma initializeFileDirectoryLoop_blank:
  assumes "\<And>j. ds \<le> j \<Longrightarrow> j < length dv \<Longrightarrow> dv ! j = 0"
  shows "initializeFileDirectoryLoop dv ds dt off = dv"
proof (induction "dt - off" arbitrary: off rule: less_induct)
  case less
  show ?case
  proof (cases "off < dt")
    case False
    then show ?thesis by (subst initializeFileDirectoryLoop.simps) simp
  next
    case True
    have d: "dt - (off + 2) < dt - off" using True by simp
    have "ds + off < length dv \<Longrightarrow> dv[ds + off := 0] = dv"
      using assms[of "ds + off"] by (metis le_add1 list_update_id)
    then show ?thesis
      using True less[OF d] by (subst initializeFileDirectoryLoop.simps) simp
  qed
qed

lemma parseABMLoop_in_range:
  "parseABMLoop dv n i m = Inr r \<Longrightarrow> i < n \<Longrightarrow> abmDiskOffset + ((n + 1) div 2) * 3 \<le> length dv"
proof (induction "n - i" arbitrary: i m rule: less_induct)
  case less
  let ?at = "abmDiskOffset + (i div 2) * 3"
  have fit: "?at + 3 \<le> length dv"
    using less.prems
    by (subst (asm) parseABMLoop.simps) (auto simp: Let_def readUint8_def bindE_def split: if_splits)
  have nxt: "parseABMLoop dv n (i + 1) (m(i \<mapsto> abmEntryOnDisk dv i)) = Inr r"
    using less.prems fit
    by (subst (asm) parseABMLoop.simps) (simp add: Let_def readUint8_def abmEntryOnDisk_def)
  show ?case
  proof (cases "i + 1 < n")
    case True
    have d: "n - (i + 1) < n - i" using True by simp
    show ?thesis using less.hyps[OF d nxt True] .
  next
    case False
    then have "n = i + 1" using less.prems(2) by simp
    then have "((n + 1) div 2) * 3 = (i div 2) * 3 + 3" by simp
    then show ?thesis using fit by simp
  qed
qed

lemma abmEntryOnDisk_zero:
  assumes "\<And>j. abmDiskOffset \<le> j \<Longrightarrow> j < length dv \<Longrightarrow> dv ! j = 0"
    and "abmDiskOffset + (k div 2) * 3 + 3 \<le> length dv"
  shows "abmEntryOnDisk dv k = 0"
  using assms by (simp add: abmEntryOnDisk_def Let_def getABMEntryFromTriplet_def)

lemma parseABMLoop_blank:
  assumes z: "\<And>j. abmDiskOffset \<le> j \<Longrightarrow> j < length dv \<Longrightarrow> dv ! j = 0"
    and r: "parseABMLoop dv n 0 Map.empty = Inr r"
  shows "r = (\<lambda>k. if k < n then Some 0 else None)"
proof (cases "0 < n")
  case False
  then show ?thesis using r by (subst (asm) parseABMLoop.simps) (auto simp: fun_eq_iff)
next
  case True
  have fit: "abmDiskOffset + ((n + 1) div 2) * 3 \<le> length dv"
    using parseABMLoop_in_range[OF r True] .
  have "r = (\<lambda>k. if 0 \<le> k \<and> k < n then Some (abmEntryOnDisk dv k) else Map.empty k)"
    using parseABMLoop_all[OF fit, of 0 Map.empty] r by simp
  moreover have "\<And>k. k < n \<Longrightarrow> abmEntryOnDisk dv k = 0"
    using abmEntryOnDisk_zero[OF z] triplet_fits[OF _ fit] by simp
  ultimately show ?thesis by (auto simp: fun_eq_iff)
qed

lemma parseFileDirectory_blank:
  assumes "dirStartBlock vi * SECTOR_SIZE < length dv \<Longrightarrow> dv ! (dirStartBlock vi * SECTOR_SIZE) = 0"
  shows "parseFileDirectory dv vi = Inr []"
  using assms
  by (simp add: parseFileDirectory_def Let_def)
     (subst parseFileDirectoryLoop.simps, simp add: Let_def readUint8_def)

text \<open>The volume information \<^verbatim>\<open>_formatNewImage\<close> builds before it writes the MDB.\<close>

definition formatVolumeInfo :: "nat \<Rightarrow> string \<Rightarrow> int \<Rightarrow> MFSVolumeInfo" where
  "formatVolumeInfo sizeKB volName now =
     \<lparr>signature = MFS_SIGNATURE,
      vol_creationDate = Some now,
      vol_modificationDate = Some now,
      attributes = 0,
      numFiles = 0,
      dirStartBlock = 4,
      dirLengthBlocks = 12,
      numAllocBlocks = int sizeKB - 8,
      allocBlockSize = 1024,
      clumpSize = 8192,
      allocBlockStartSector = 16,
      nextFileNum = 1,
      freeAllocBlocks = int sizeKB - 8,
      volumeName = volName\<rparr>"

text \<open>The image after formatting: zero but for the 64 bytes of the volume information.\<close>

definition formatBuffer :: "nat \<Rightarrow> string \<Rightarrow> int \<Rightarrow> byte list" where
  "formatBuffer sizeKB volName now =
     snd (applyWrites (replicate (sizeKB * 1024) 0)
            (mdbHeaderWrites (formatVolumeInfo sizeKB volName now)))"

lemma formatBuffer_length: "length (formatBuffer sizeKB volName now) = sizeKB * 1024"
  by (simp add: formatBuffer_def applyWrites_length)

lemma formatBuffer_zero:
  "j < mdbOffset \<or> mdbOffset + 64 \<le> j \<Longrightarrow> j < sizeKB * 1024 \<Longrightarrow>
   formatBuffer sizeKB volName now ! j = 0"
  by (simp add: formatBuffer_def mdbHeader_frame)

lemma formatNewImage_unfold:
  assumes "3 \<le> sizeKB"
  shows "formatNewImage sizeKB volName now =
     (case fst (writeABMLoop (formatBuffer sizeKB volName now) Map.empty (int sizeKB - 8) 0) of
        Some e \<Rightarrow> Inl e
      | None \<Rightarrow>
          bindE (parseABMLoop (formatBuffer sizeKB volName now)
                   (nat ((int sizeKB - 8) mod 65536)) 0 Map.empty) (\<lambda>abmArr.
            Inr \<lparr>imageBuffer = formatBuffer sizeKB volName now,
                 volumeInfo = volumeInfoAsStored (formatVolumeInfo sizeKB volName now),
                 abm = abmArr, fileDirectory = []\<rparr>))"
proof -
  let ?vi = "formatVolumeInfo sizeKB volName now"
  let ?hdr = "formatBuffer sizeKB volName now"
  let ?dv0 = "replicate (sizeKB * 1024) (0 :: byte)"
  have len0: "mdbOffset + 64 \<le> length ?dv0" using assms by (simp add: mdbOffset_eq)
  have vi: "\<lparr>signature = MFS_SIGNATURE, vol_creationDate = Some now,
             vol_modificationDate = Some now, attributes = 0, numFiles = 0,
             dirStartBlock = BOOT_BLOCK_SECTORS + 1024 div SECTOR_SIZE, dirLengthBlocks = 12,
             numAllocBlocks = (int (sizeKB * 1024 div SECTOR_SIZE)
                 - int (BOOT_BLOCK_SECTORS + 1024 div SECTOR_SIZE + 12))
                 div int (DEFAULT_ALLOC_BLOCK_SIZE_400K div SECTOR_SIZE),
             allocBlockSize = DEFAULT_ALLOC_BLOCK_SIZE_400K,
             clumpSize = max (DEFAULT_ALLOC_BLOCK_SIZE_400K * 8) DEFAULT_ALLOC_BLOCK_SIZE_400K,
             allocBlockStartSector = BOOT_BLOCK_SECTORS + 1024 div SECTOR_SIZE + 12,
             nextFileNum = 1,
             freeAllocBlocks = (int (sizeKB * 1024 div SECTOR_SIZE)
                 - int (BOOT_BLOCK_SECTORS + 1024 div SECTOR_SIZE + 12))
                 div int (DEFAULT_ALLOC_BLOCK_SIZE_400K div SECTOR_SIZE),
             volumeName = volName\<rparr> = ?vi"
    by (simp add: formatVolumeInfo_def SECTOR_SIZE_def BOOT_BLOCK_SECTORS_def
          DEFAULT_ALLOC_BLOCK_SIZE_400K_def)
  have ok: "applyWrites ?dv0 (mdbHeaderWrites ?vi) = (None, ?hdr)"
    using mdbHeader_ok[OF len0, of ?vi] by (simp add: formatBuffer_def prod_eq_iff)
  have z: "\<And>j. mdbOffset + 64 \<le> j \<Longrightarrow> j < length ?hdr \<Longrightarrow> ?hdr ! j = 0"
    using formatBuffer_zero by (simp add: formatBuffer_length)
  have za: "\<And>j. abmDiskOffset \<le> j \<Longrightarrow> j < length ?hdr \<Longrightarrow> ?hdr ! j = 0"
    using z by (simp add: abmDiskOffset_eq mdbOffset_eq)
  have w: "snd (writeABMLoop ?hdr Map.empty (int sizeKB - 8) 0) = ?hdr"
    by (rule writeABMLoop_blank[OF za])
  have wm: "writeMDB \<lparr>imageBuffer = ?dv0, volumeInfo = ?vi, abm = Map.empty, fileDirectory = []\<rparr>
             = (fst (writeABMLoop ?hdr Map.empty (int sizeKB - 8) 0),
                \<lparr>imageBuffer = ?hdr, volumeInfo = ?vi, abm = Map.empty, fileDirectory = []\<rparr>)"
  proof -
    obtain e where e: "writeABMLoop ?hdr Map.empty (int sizeKB - 8) 0 = (e, ?hdr)"
      using w by (cases "writeABMLoop ?hdr Map.empty (int sizeKB - 8) 0") simp
    have nv: "numAllocBlocks ?vi = int sizeKB - 8" by (simp add: formatVolumeInfo_def)
    show ?thesis by (simp add: writeMDB_def ok e nv)
  qed
  have ini: "initializeFileDirectoryArea ?hdr ?vi = ?hdr"
    unfolding initializeFileDirectoryArea_def Let_def
    by (rule initializeFileDirectoryLoop_blank)
       (use z in \<open>simp add: formatVolumeInfo_def SECTOR_SIZE_def mdbOffset_eq\<close>)
  have pm: "parseMDB ?hdr =
              bindE (parseABMLoop ?hdr (nat ((int sizeKB - 8) mod 65536)) 0 Map.empty)
                (\<lambda>abmArr. Inr (volumeInfoAsStored ?vi, abmArr))"
    using parseMDB_header[OF len0, of ?hdr ?vi]
    by (simp add: formatBuffer_def) (simp add: formatVolumeInfo_def)
  have pd: "parseFileDirectory ?hdr (volumeInfoAsStored ?vi) = Inr []"
    by (rule parseFileDirectory_blank)
       (use z in \<open>simp add: volumeInfoAsStored_def formatVolumeInfo_def SECTOR_SIZE_def
                    mdbOffset_eq\<close>)
  have sz: "\<not> sizeKB * 1024 < BOOT_BLOCK_SECTORS * SECTOR_SIZE + 1024 + DEFAULT_ALLOC_BLOCK_SIZE_400K"
    "sizeKB * 1024 mod SECTOR_SIZE = 0"
    using assms by (simp_all add: SECTOR_SIZE_def BOOT_BLOCK_SECTORS_def
          DEFAULT_ALLOC_BLOCK_SIZE_400K_def)
  have body: "bindE (parseMDB ?hdr) (\<lambda>(vi2, abmArr).
                 bindE (parseFileDirectory ?hdr vi2) (\<lambda>entries.
                   Inr \<lparr>imageBuffer = ?hdr, volumeInfo = vi2, abm = abmArr,
                        fileDirectory = entries\<rparr>))
              = bindE (parseABMLoop ?hdr (nat ((int sizeKB - 8) mod 65536)) 0 Map.empty)
                  (\<lambda>abmArr. Inr \<lparr>imageBuffer = ?hdr,
                     volumeInfo = volumeInfoAsStored ?vi, abm = abmArr, fileDirectory = []\<rparr>)"
    unfolding pm
    by (cases "parseABMLoop ?hdr (nat ((int sizeKB - 8) mod 65536)) 0 Map.empty")
       (simp_all add: pd)
  show ?thesis
    unfolding formatNewImage_def Let_def vi
    by (simp only: sz if_False wm prod.case MFSVolume.select_convs ini body) simp
qed

lemma formatNewImage_Inr:
  assumes "formatNewImage sizeKB volName now = Inr vol"
  shows "vol = \<lparr>imageBuffer = formatBuffer sizeKB volName now,
                volumeInfo = volumeInfoAsStored (formatVolumeInfo sizeKB volName now),
                abm = (\<lambda>k. if k < nat ((int sizeKB - 8) mod 65536) then Some 0 else None),
                fileDirectory = []\<rparr>"
proof -
  have big: "3 \<le> sizeKB"
  proof (rule ccontr)
    assume "\<not> 3 \<le> sizeKB"
    then have "formatNewImage sizeKB volName now = Inl ImageTooSmall"
      by (simp add: formatNewImage_def Let_def SECTOR_SIZE_def BOOT_BLOCK_SECTORS_def
            DEFAULT_ALLOC_BLOCK_SIZE_400K_def)
    then show False using assms by simp
  qed
  let ?hdr = "formatBuffer sizeKB volName now"
  let ?n = "nat ((int sizeKB - 8) mod 65536)"
  have za: "\<And>j. abmDiskOffset \<le> j \<Longrightarrow> j < length ?hdr \<Longrightarrow> ?hdr ! j = 0"
    using formatBuffer_zero by (simp add: formatBuffer_length abmDiskOffset_eq mdbOffset_eq)
  from assms obtain r where r: "parseABMLoop ?hdr ?n 0 Map.empty = Inr r"
    and v: "vol = \<lparr>imageBuffer = ?hdr,
                volumeInfo = volumeInfoAsStored (formatVolumeInfo sizeKB volName now),
                abm = r, fileDirectory = []\<rparr>"
    unfolding formatNewImage_unfold[OF big]
    by (auto simp: bindE_def split: option.splits sum.splits)
  show ?thesis using parseABMLoop_blank[OF za r] v by simp
qed

lemma formatNewImage_ok:
  assumes "8 \<le> sizeKB" "sizeKB < 65544"
  shows "formatNewImage sizeKB volName now =
           Inr \<lparr>imageBuffer = formatBuffer sizeKB volName now,
                volumeInfo = volumeInfoAsStored (formatVolumeInfo sizeKB volName now),
                abm = (\<lambda>k. if k < sizeKB - 8 then Some 0 else None),
                fileDirectory = []\<rparr>"
proof -
  let ?hdr = "formatBuffer sizeKB volName now"
  let ?n = "sizeKB - 8"
  have n: "int sizeKB - 8 = int ?n" "nat ((int sizeKB - 8) mod 65536) = ?n"
    using assms by simp_all
  have "(?n + 1) div 2 \<le> sizeKB" by simp
  then have "((?n + 1) div 2) * 3 \<le> sizeKB * 3" by (rule mult_le_mono1)
  then have fit: "abmDiskOffset + ((?n + 1) div 2) * 3 \<le> length ?hdr"
    using assms by (simp add: formatBuffer_length abmDiskOffset_eq)
  have w: "fst (writeABMLoop ?hdr Map.empty (int ?n) 0) = None"
    using writeABMLoop_all[of 0 ?n ?hdr Map.empty, OF _ fit] by (auto simp: abmValue_def)
  have za: "\<And>j. abmDiskOffset \<le> j \<Longrightarrow> j < length ?hdr \<Longrightarrow> ?hdr ! j = 0"
    using formatBuffer_zero by (simp add: formatBuffer_length abmDiskOffset_eq mdbOffset_eq)
  have p: "parseABMLoop ?hdr ?n 0 Map.empty
             = Inr (\<lambda>k. if 0 \<le> k \<and> k < ?n then Some (abmEntryOnDisk ?hdr k) else Map.empty k)"
    by (rule parseABMLoop_all[OF fit])
  have p': "parseABMLoop ?hdr ?n 0 Map.empty = Inr (\<lambda>k. if k < ?n then Some 0 else None)"
    using parseABMLoop_blank[OF za p] p by simp
  have m: "nat (int (sizeKB - 8) mod 65536) = sizeKB - 8" using assms by simp
  have "3 \<le> sizeKB" using assms by simp
  from formatNewImage_unfold[OF this, of volName now]
  show ?thesis unfolding n by (simp add: w p' m)
qed

text \<open>
  Claim C7: a sequence \<open>vs\<close> of values, each at most \<open>0xFFF\<close>, written by the packing loop
  of \<^verbatim>\<open>_writeMDB\<close> into an image that has room for the triplets, is read back unchanged by
  the unpacking loop of \<^verbatim>\<open>_parseMDB\<close>; a single-entry write of a value \<open>w \<le> 0xFFF\<close> keeps
  the low nibble of \<open>b1\<close> (even entry) or its high nibble (odd entry); and a value above
  \<open>0xFFF\<close> makes \<^verbatim>\<open>packABMEntryToTriplet\<close> throw.
\<close>

theorem abm_pack_unpack_roundtrip:
  assumes "\<forall>x \<in> set vs. x \<le> 0xFFF"
    and "abmDiskOffset + ((length vs + 1) div 2) * 3 \<le> length dv"
    and "w \<le> 0xFFF" and "0xFFF < big"
  shows "(\<exists>dv'. writeABMLoop dv (abmOfList vs) (int (length vs)) 0 = (None, dv')
            \<and> parseABMLoop dv' (length vs) 0 Map.empty = Inr (abmOfList vs))
       \<and> (\<exists>c0 c1 c2. packABMEntryToTriplet w b0 b1 b2 True = Inr (c0, c1, c2)
            \<and> c1 AND 0x0F = b1 AND 0x0F)
       \<and> (\<exists>c0 c1 c2. packABMEntryToTriplet w b0 b1 b2 False = Inr (c0, c1, c2)
            \<and> c1 AND 0xF0 = b1 AND 0xF0)
       \<and> packABMEntryToTriplet big b0 b1 b2 isEvenIndex = Inl AbmValueExceeds12Bit"
proof -
  let ?n = "length vs"
  have vals: "\<And>k. 0 \<le> k \<Longrightarrow> k < ?n \<Longrightarrow> abmValue (abmOfList vs) k \<le> 0xFFF"
    using assms(1) by (simp add: abmValue_def abmOfList_def)
  obtain dv' where w: "writeABMLoop dv (abmOfList vs) (int ?n) 0 = (None, dv')"
    and l: "length dv' = length dv"
    and e: "\<And>k. k < ?n \<Longrightarrow> abmEntryOnDisk dv' k = abmValue (abmOfList vs) k"
    using writeABMLoop_all[of 0 ?n dv "abmOfList vs", OF _ assms(2) vals] by auto
  have "parseABMLoop dv' ?n 0 Map.empty
          = Inr (\<lambda>k. if 0 \<le> k \<and> k < ?n then Some (abmEntryOnDisk dv' k) else Map.empty k)"
    using assms(2) l by (intro parseABMLoop_all) simp
  also have "(\<lambda>k. if 0 \<le> k \<and> k < ?n then Some (abmEntryOnDisk dv' k) else Map.empty k)
               = abmOfList vs"
    using e by (auto simp: fun_eq_iff abmOfList_def abmValue_def)
  finally have p: "parseABMLoop dv' ?n 0 Map.empty = Inr (abmOfList vs)" .
  have ev: "\<exists>c0 c1 c2. packABMEntryToTriplet w b0 b1 b2 True = Inr (c0, c1, c2)
              \<and> c1 AND 0x0F = b1 AND 0x0F"
    unfolding pack_even[OF assms(3)] const_0F using even_keeps_low_nibble[of b1 w] by blast
  have od: "\<exists>c0 c1 c2. packABMEntryToTriplet w b0 b1 b2 False = Inr (c0, c1, c2)
              \<and> c1 AND 0xF0 = b1 AND 0xF0"
    unfolding pack_odd[OF assms(3)] const_F0 using odd_keeps_high_nibble[of b1 w] by blast
  show ?thesis
    using w p ev od pack_too_big[OF assms(4)] by blast
qed

theorem abm_pack_unpack_roundtrip_witness:
  "(\<exists>dv'. writeABMLoop (replicate 2048 0) (abmOfList [0xABC, 0x123, 0xFFF]) (int (length [0xABC, 0x123, 0xFFF :: nat])) 0 = (None, dv')
            \<and> parseABMLoop dv' (length [0xABC, 0x123, 0xFFF :: nat]) 0 Map.empty = Inr (abmOfList [0xABC, 0x123, 0xFFF]))
       \<and> (\<exists>c0 c1 c2. packABMEntryToTriplet 0xABC 0x11 0x5A 0x22 True = Inr (c0, c1, c2)
            \<and> c1 AND 0x0F = 0x5A AND 0x0F)
       \<and> (\<exists>c0 c1 c2. packABMEntryToTriplet 0xABC 0x11 0x5A 0x22 False = Inr (c0, c1, c2)
            \<and> c1 AND 0xF0 = 0x5A AND 0xF0)
       \<and> packABMEntryToTriplet 0x1000 0x11 0x5A 0x22 True = Inl AbmValueExceeds12Bit"
  using abm_pack_unpack_roundtrip[of "[0xABC, 0x123, 0xFFF]" "replicate 2048 0" "0xABC" "0x1000"
          "0x11" "0x5A" "0x22" True]
  by (simp add: abmDiskOffset_eq)

text \<open>
  Claim C8: creating a 400 KB volume named "MyDisk" succeeds, whatever the time of day; the
  file list is empty, and the volume information holds the signature \<open>0xD2D7\<close>, 392
  allocation blocks, all of them free, the directory at sector 4 over 12 sectors, the
  allocation blocks from sector 16 on with 1024 bytes each, and the name "MyDisk".
\<close>

theorem format_400K_MyDisk:
  "\<exists>vol. createVolume (Some 400) (Some ''MyDisk'') now = Inr vol
     \<and> listFiles vol = []
     \<and> signature (volumeInfo vol) = 0xD2D7
     \<and> numAllocBlocks (volumeInfo vol) = 392
     \<and> freeAllocBlocks (volumeInfo vol) = 392
     \<and> dirStartBlock (volumeInfo vol) = 4
     \<and> dirLengthBlocks (volumeInfo vol) = 12
     \<and> allocBlockStartSector (volumeInfo vol) = 16
     \<and> allocBlockSize (volumeInfo vol) = 1024
     \<and> volumeName (volumeInfo vol) = ''MyDisk''"
  using formatNewImage_ok[of 400 "''MyDisk''" now]
  by (simp add: createVolume_def listFiles_def volumeInfoAsStored_def formatVolumeInfo_def
        MFS_SIGNATURE_def)

subsection \<open>A directory of two sectors\<close>

text \<open>
  A 3072-byte image: boot blocks, an MDB with the MFS signature, two files, a directory of two
  sectors starting at sector 4, and no allocation blocks. The first directory sector holds the
  entry of a file named \<^verbatim>\<open>A\<close> (52 bytes) followed by unused space up to the end of the sector;
  the second directory sector starts with the entry of a file named \<^verbatim>\<open>B\<close>.
\<close>

definition twoSectorDirectoryImage :: "byte list" where
  "twoSectorDirectoryImage =
     (replicate 3072 0)
       [1024 := 0xD2, 1025 := 0xD7, 1037 := 2, 1039 := 4, 1041 := 2,
        2048 := 0x80, 2098 := 1, 2099 := 0x41,
        2560 := 0x80, 2610 := 1, 2611 := 0x42]"

lemma twoSectorDirectoryImage_length: "length twoSectorDirectoryImage = 3072"
  by (simp add: twoSectorDirectoryImage_def)

lemma twoSectorDirectoryImage_nth:
  "j < 3072 \<Longrightarrow>
   twoSectorDirectoryImage ! j =
     (if j = 1024 then 0xD2 else if j = 1025 then 0xD7 else if j = 1037 then 2
      else if j = 1039 then 4 else if j = 1041 then 2
      else if j = 2048 then 0x80 else if j = 2098 then 1 else if j = 2099 then 0x41
      else if j = 2560 then 0x80 else if j = 2610 then 1 else if j = 2611 then 0x42 else 0)"
  by (simp add: twoSectorDirectoryImage_def nth_list_update)

lemma twoSector_u8:
  "j < 3072 \<Longrightarrow>
   readUint8 twoSectorDirectoryImage j =
     Inr (if j = 1024 then 0xD2 else if j = 1025 then 0xD7 else if j = 1037 then 2
      else if j = 1039 then 4 else if j = 1041 then 2
      else if j = 2048 then 0x80 else if j = 2098 then 1 else if j = 2099 then 0x41
      else if j = 2560 then 0x80 else if j = 2610 then 1 else if j = 2611 then 0x42 else 0)"
  by (simp add: readUint8_def twoSectorDirectoryImage_length twoSectorDirectoryImage_nth)

lemma twoSector_parseMDB:
  "parseMDB twoSectorDirectoryImage =
     Inr (\<lparr>signature = 0xD2D7,
            vol_creationDate = mfsTimestampToDate 0,
            vol_modificationDate = mfsTimestampToDate 0,
            attributes = 0, numFiles = 2, dirStartBlock = 4, dirLengthBlocks = 2,
            numAllocBlocks = 0, allocBlockSize = 0, clumpSize = 0,
            allocBlockStartSector = 0, nextFileNum = 0, freeAllocBlocks = 0,
            volumeName = []\<rparr>, Map.empty)"
  by (simp add: parseMDB_def mdbOffset_eq readUint16BE_def readUint32BE_def
        readPascalString_def readUint8_def parseABMLoop.simps
        twoSectorDirectoryImage_length twoSectorDirectoryImage_nth)

lemma fromCharCode_A: "fromCharCode 65 = CHR ''A''"
  using fromCharCode_charCode[of "CHR ''A''"] by (simp add: charCode_def)

lemma fromCharCode_B: "fromCharCode 66 = CHR ''B''"
  using fromCharCode_charCode[of "CHR ''B''"] by (simp add: charCode_def)

lemma upt_4: "[0..<4] = [0, 1, 2, 3::nat]"
  by (simp add: upt_rec)

lemma twoSector_chars4:
  "off + 4 \<le> 3072 \<Longrightarrow>
   readChars twoSectorDirectoryImage off 4 =
     Inr [fromCharCode (unat (twoSectorDirectoryImage ! off)),
          fromCharCode (unat (twoSectorDirectoryImage ! (off + 1))),
          fromCharCode (unat (twoSectorDirectoryImage ! (off + 2))),
          fromCharCode (unat (twoSectorDirectoryImage ! (off + 3)))]"
  by (simp add: readChars_eq twoSectorDirectoryImage_length upt_4)

lemma twoSector_entry_A:
  "map_sum id (\<lambda>e. (filename e, entryLength e)) (readFileEntry twoSectorDirectoryImage 2048 128)
     = Inr (''A'', 52)"
  by (simp add: readFileEntry_def readUint16BE_def readUint32BE_def
        readPascalString_def readUint8_def twoSector_chars4 fromCharCode_A
        twoSectorDirectoryImage_length twoSectorDirectoryImage_nth)

lemma twoSector_entry_B:
  "map_sum id (\<lambda>e. (filename e, entryLength e)) (readFileEntry twoSectorDirectoryImage 2560 128)
     = Inr (''B'', 52)"
  by (simp add: readFileEntry_def readUint16BE_def readUint32BE_def
        readPascalString_def readUint8_def twoSector_chars4 fromCharCode_B
        twoSectorDirectoryImage_length twoSectorDirectoryImage_nth)

lemma twoSector_directory:
  "map_sum id (map filename) (parseFileDirectoryLoop twoSectorDirectoryImage 2048 1024 0 [])
     = Inr [''A'']"
proof -
  obtain e where e: "readFileEntry twoSectorDirectoryImage 2048 128 = Inr e"
      "filename e = ''A''" "entryLength e = 52"
    using twoSector_entry_A by (cases "readFileEntry twoSectorDirectoryImage 2048 128") auto
  have second: "parseFileDirectoryLoop twoSectorDirectoryImage 2048 1024 52 [e] = Inr [e]"
    by (subst parseFileDirectoryLoop.simps)
       (simp add: twoSectorDirectoryImage_length twoSector_u8)
  have "parseFileDirectoryLoop twoSectorDirectoryImage 2048 1024 0 [] = Inr [e]"
    by (subst parseFileDirectoryLoop.simps)
       (simp add: twoSectorDirectoryImage_length twoSector_u8 e second)
  then show ?thesis by (simp add: e)
qed

text \<open>
  C4. Loading \<open>twoSectorDirectoryImage\<close> lists the file \<^verbatim>\<open>A\<close> only. The byte after the entry of
  \<^verbatim>\<open>A\<close> has bit 7 clear and ends the whole scan, although the next directory sector starts
  with the in-use entry of \<^verbatim>\<open>B\<close>: the scan does not advance to the next sector, and the later
  entry is missing from the parsed file list.
\<close>

theorem directory_scan_misses_next_sector:
  "map_sum id (map l_filename \<circ> listFiles) (loadExistingImage twoSectorDirectoryImage)
     = Inr [''A''] \<and>
   readUint8 twoSectorDirectoryImage (4 * SECTOR_SIZE + 52) = Inr 0 \<and>
   readUint8 twoSectorDirectoryImage (5 * SECTOR_SIZE) = Inr 128 \<and>
   map_sum id filename (readFileEntry twoSectorDirectoryImage (5 * SECTOR_SIZE) 128)
     = Inr ''B''"
proof -
  have "map_sum id (map l_filename \<circ> listFiles) (loadExistingImage twoSectorDirectoryImage)
          = map_sum id (map filename)
              (parseFileDirectoryLoop twoSectorDirectoryImage 2048 1024 0 [])"
    by (cases "parseFileDirectoryLoop twoSectorDirectoryImage 2048 1024 0 []")
       (simp_all add: loadExistingImage_def twoSector_parseMDB MFS_SIGNATURE_def
          parseFileDirectory_def SECTOR_SIZE_def listFiles_def comp_def)
  moreover have "map_sum id filename (readFileEntry twoSectorDirectoryImage 2560 128) = Inr ''B''"
    using twoSector_entry_B
    by (cases "readFileEntry twoSectorDirectoryImage 2560 128") auto
  ultimately show ?thesis
    by (simp add: twoSector_directory SECTOR_SIZE_def twoSector_u8)
qed

end
